theory Spec2Isabelle
  imports Complex_Main "HOL-Library.Word"
begin

section \<open>Reward engine (natix/validator/reward.py)\<close>

text \<open>
  A Python float is a finite number, an infinity or nan.  Finite values are real
  numbers here: rounding is not modelled, and 0.0 and -0.0, which compare equal, are one
  value.  The operations follow IEEE 754 on the special values: nan propagates, an
  infinity times zero is nan, opposite infinities add up to nan, and every comparison
  with nan is false.
\<close>

datatype pyfloat = Finite real | PosInf | NegInf | NaN

fun fmul :: "pyfloat \<Rightarrow> pyfloat \<Rightarrow> pyfloat" where
  "fmul NaN y = NaN"
| "fmul x NaN = NaN"
| "fmul (Finite a) (Finite b) = Finite (a * b)"
| "fmul (Finite a) PosInf = (if a = 0 then NaN else if 0 < a then PosInf else NegInf)"
| "fmul (Finite a) NegInf = (if a = 0 then NaN else if 0 < a then NegInf else PosInf)"
| "fmul PosInf (Finite b) = (if b = 0 then NaN else if 0 < b then PosInf else NegInf)"
| "fmul NegInf (Finite b) = (if b = 0 then NaN else if 0 < b then NegInf else PosInf)"
| "fmul PosInf PosInf = PosInf"
| "fmul PosInf NegInf = NegInf"
| "fmul NegInf PosInf = NegInf"
| "fmul NegInf NegInf = PosInf"

fun fadd :: "pyfloat \<Rightarrow> pyfloat \<Rightarrow> pyfloat" where
  "fadd NaN y = NaN"
| "fadd x NaN = NaN"
| "fadd (Finite a) (Finite b) = Finite (a + b)"
| "fadd (Finite a) PosInf = PosInf"
| "fadd (Finite a) NegInf = NegInf"
| "fadd PosInf (Finite b) = PosInf"
| "fadd NegInf (Finite b) = NegInf"
| "fadd PosInf PosInf = PosInf"
| "fadd PosInf NegInf = NaN"
| "fadd NegInf PosInf = NaN"
| "fadd NegInf NegInf = NegInf"

text \<open>\<open>flt x y\<close> is \<open>x < y\<close>, also written \<open>y > x\<close>; \<open>feq x y\<close> is \<open>x == y\<close>.\<close>

fun flt :: "pyfloat \<Rightarrow> pyfloat \<Rightarrow> bool" where
  "flt NaN y = False"
| "flt x NaN = False"
| "flt (Finite a) (Finite b) = (a < b)"
| "flt (Finite a) PosInf = True"
| "flt (Finite a) NegInf = False"
| "flt PosInf y = False"
| "flt NegInf (Finite b) = True"
| "flt NegInf PosInf = True"
| "flt NegInf NegInf = False"

definition feq :: "pyfloat \<Rightarrow> pyfloat \<Rightarrow> bool" where
  "feq x y = (x \<noteq> NaN \<and> x = y)"

definition is_finite :: "pyfloat \<Rightarrow> bool" where
  "is_finite x = (case x of Finite a \<Rightarrow> True | _ \<Rightarrow> False)"

text \<open>
  Miner UIDs are integers, hotkeys strings.  An \<open>exn\<close> is an instance of Python's
  \<open>Exception\<close>: the ones the code raises itself or through an operation of the
  language (a missing dictionary key, a local variable read before assignment, an
  operand of the wrong type) and, as \<open>Raised\<close>, whatever else a called method or
  library raises.
\<close>

datatype exn =
    KeyError string
  | UnboundLocalError string
  | TypeError string
  | ValueError string
  | DataError string
  | Raised string

type_synonym uid = int

type_synonym metrics = "string \<rightharpoonup> pyfloat"

record axon =
  hotkey :: string

text \<open>
  The performance tracker class lives in another module; \<open>get_rewards\<close> only calls
  it.  Its attribute \<open>miner_hotkeys\<close> and its three methods are parameters here, over
  an arbitrary tracker state \<open>'t\<close>.  A method may raise and may have
  mutated the tracker before raising, so each one returns its outcome together with the
  tracker it leaves behind.
\<close>

record 't tracker_ops =
  miner_hotkeys_of :: "'t \<Rightarrow> uid \<rightharpoonup> string"
  reset_op :: "uid \<Rightarrow> string \<Rightarrow> 't \<Rightarrow> (exn + unit) \<times> 't"
  update_op :: "uid \<Rightarrow> pyfloat \<Rightarrow> pyfloat \<Rightarrow> string \<Rightarrow> 't \<Rightarrow> (exn + unit) \<times> 't"
  get_metrics_op :: "uid \<Rightarrow> nat \<Rightarrow> 't \<Rightarrow> (exn + metrics) \<times> 't"

definition compute_penalty :: "pyfloat \<Rightarrow> pyfloat" where
  "compute_penalty y_pred =
     (let bad = (flt y_pred (Finite 0) \<or> flt (Finite 1) y_pred)
      in if bad then Finite 0 else Finite 1)"

text \<open>
  What one call of \<open>get_rewards\<close> carries from one loop iteration to the next: the
  dictionary of trackers (its objects are mutated in place) and the local variable
  \<open>metrics_100\<close>, unbound (\<open>None\<close>) until line 81 first assigns it.
\<close>

record 't scoring_state =
  performance_trackers :: "string \<rightharpoonup> 't"
  metrics_100 :: "metrics option"

definition put_tracker :: "'t \<Rightarrow> 't scoring_state \<Rightarrow> 't scoring_state" where
  "put_tracker t st = st\<lparr>performance_trackers := (performance_trackers st)(''image'' \<mapsto> t)\<rparr>"

text \<open>Lines 73 to 84: the \<open>else\<close> branch, for a prediction other than -1.\<close>

definition tracked_reward ::
  "'t tracker_ops \<Rightarrow> pyfloat \<Rightarrow> axon \<Rightarrow> uid \<Rightarrow> pyfloat \<Rightarrow> 't scoring_state
     \<Rightarrow> (exn + pyfloat) \<times> 't scoring_state" where
  "tracked_reward ops label ax u pred_prob st =
     (let miner_hotkey = hotkey ax in
      case performance_trackers st ''image'' of
        None \<Rightarrow> (Inl (KeyError ''image''), st)
      | Some t \<Rightarrow>
         (let tracked_hotkeys = miner_hotkeys_of ops t;
              changed = (case tracked_hotkeys u of None \<Rightarrow> False | Some h \<Rightarrow> h \<noteq> miner_hotkey)
          in case (if changed then reset_op ops u miner_hotkey t else (Inr (), t)) of
               (Inl e, t0) \<Rightarrow> (Inl e, put_tracker t0 st)
             | (Inr _, t0) \<Rightarrow>
                (case update_op ops u pred_prob label miner_hotkey t0 of
                   (Inl e, t1) \<Rightarrow> (Inl e, put_tracker t1 st)
                 | (Inr _, t1) \<Rightarrow>
                    (case get_metrics_op ops u 100 t1 of
                       (Inl e, t2) \<Rightarrow> (Inl e, put_tracker t2 st)
                     | (Inr m100, t2) \<Rightarrow>
                        (case get_metrics_op ops u 10 t2 of
                           (Inl e, t3) \<Rightarrow>
                             (Inl e, (put_tracker t3 st)\<lparr>metrics_100 := Some m100\<rparr>)
                         | (Inr m10, t3) \<Rightarrow>
                             (let st3 = (put_tracker t3 st)\<lparr>metrics_100 := Some m100\<rparr> in
                              case m100 ''mcc'' of
                                None \<Rightarrow> (Inl (KeyError ''mcc''), st3)
                              | Some mcc \<Rightarrow>
                                 (case m10 ''accuracy'' of
                                    None \<Rightarrow> (Inl (KeyError ''accuracy''), st3)
                                  | Some acc \<Rightarrow>
                                     (Inr (fmul (fadd (fmul (Finite 0.5) mcc) (fmul (Finite 0.5) acc))
                                             (compute_penalty pred_prob)),
                                      st3))))))))"

text \<open>
  The two dictionaries built afresh for each miner, and the \<open>try\<close> block of lines 69
  to 87.  Line 86 stores the reward before line 87 reads \<open>metrics_100\<close>, which is
  still unbound when no earlier iteration of this call reached line 81.
\<close>

record miner_dicts =
  miner_modality_rewards :: "string \<rightharpoonup> pyfloat"
  miner_modality_metrics :: "string \<rightharpoonup> metrics"

definition try_block ::
  "'t tracker_ops \<Rightarrow> pyfloat \<Rightarrow> axon \<Rightarrow> uid \<Rightarrow> pyfloat \<Rightarrow> 't scoring_state
     \<Rightarrow> (exn + unit) \<times> miner_dicts \<times> 't scoring_state" where
  "try_block ops label ax u pred_prob st =
     (case (if feq pred_prob (Finite (- 1)) then (Inr (Finite 0), st) else tracked_reward ops label ax u pred_prob st) of
        (Inl e, st1) \<Rightarrow>
          (Inl e, \<lparr>miner_modality_rewards = Map.empty, miner_modality_metrics = Map.empty\<rparr>, st1)
      | (Inr reward, st1) \<Rightarrow>
          (case metrics_100 st1 of
             None \<Rightarrow>
               (Inl (UnboundLocalError ''metrics_100''),
                \<lparr>miner_modality_rewards = [''image'' \<mapsto> reward],
                 miner_modality_metrics = Map.empty\<rparr>, st1)
           | Some m \<Rightarrow>
               (Inr (),
                \<lparr>miner_modality_rewards = [''image'' \<mapsto> reward],
                 miner_modality_metrics = [''image'' \<mapsto> m]\<rparr>, st1)))"

text \<open>
  One iteration of the loop of line 63: the \<open>try\<close> block, the \<open>except Exception\<close>
  clause (it logs and goes on), then lines 94 to 96.
\<close>

definition score_miner ::
  "'t tracker_ops \<Rightarrow> pyfloat \<Rightarrow> axon \<times> uid \<times> pyfloat \<Rightarrow> 't scoring_state
     \<Rightarrow> (pyfloat \<times> (string \<rightharpoonup> metrics)) \<times> 't scoring_state" where
  "score_miner ops label x st =
     (case x of (ax, u, pred_prob) \<Rightarrow>
        (case try_block ops label ax u pred_prob st of
           (_, d, st1) \<Rightarrow>
             (let total_reward =
                    (case miner_modality_rewards d ''image'' of None \<Rightarrow> Finite 0 | Some r \<Rightarrow> r)
              in ((total_reward, miner_modality_metrics d), st1))))"

fun score_batch ::
  "'t tracker_ops \<Rightarrow> pyfloat \<Rightarrow> (axon \<times> uid \<times> pyfloat) list \<Rightarrow> 't scoring_state
     \<Rightarrow> pyfloat list \<times> (string \<rightharpoonup> metrics) list \<times> 't scoring_state" where
  "score_batch ops label [] st = ([], [], st)"
| "score_batch ops label (x # xs) st =
     (case score_miner ops label x st of
        ((r, m), st1) \<Rightarrow>
          (case score_batch ops label xs st1 of
             (rs, ms, st2) \<Rightarrow> (r # rs, m # ms, st2)))"

text \<open>
  \<open>get_rewards\<close>: the rewards, the metrics, and the trackers as the call leaves them.
\<close>

definition get_rewards ::
  "'t tracker_ops \<Rightarrow> pyfloat \<Rightarrow> pyfloat list \<Rightarrow> uid list \<Rightarrow> axon list
     \<Rightarrow> (string \<rightharpoonup> 't)
     \<Rightarrow> pyfloat list \<times> (string \<rightharpoonup> metrics) list \<times> (string \<rightharpoonup> 't)" where
  "get_rewards ops label responses uids axons trackers =
     (case score_batch ops label (zip axons (zip uids responses))
             \<lparr>performance_trackers = trackers, metrics_100 = None\<rparr> of
        (miner_rewards, miner_metrics, st) \<Rightarrow>
          (miner_rewards, miner_metrics, performance_trackers st))"

subsection \<open>The performance tracker\<close>

text \<open>
  Modelled from the spec: the PerformanceTracker class, whose source is missing.  It
  maps a miner UID to a rolling history of (prediction, label) pairs, oldest first, and
  to the last-known hotkey.  A reset empties the miner's history and records the new
  hotkey; an update appends one observation and drops the oldest ones beyond 100; the
  metrics of a window are computed from the last \<open>window\<close> observations.  The
  statistics themselves (Matthews correlation coefficient, accuracy) come from a
  numerical library and are the parameter \<open>metric_fn\<close>.
\<close>

record tracker =
  prediction_history :: "uid \<rightharpoonup> (pyfloat \<times> pyfloat) list"
  miner_hotkeys :: "uid \<rightharpoonup> string"

definition history_of :: "tracker \<Rightarrow> uid \<Rightarrow> (pyfloat \<times> pyfloat) list" where
  "history_of t u = (case prediction_history t u of None \<Rightarrow> [] | Some h \<Rightarrow> h)"

definition last_n :: "nat \<Rightarrow> 'a list \<Rightarrow> 'a list" where
  "last_n n xs = drop (length xs - n) xs"

definition reset_miner_history :: "uid \<Rightarrow> string \<Rightarrow> tracker \<Rightarrow> tracker" where
  "reset_miner_history u miner_hotkey t =
     t\<lparr>prediction_history := (prediction_history t)(u \<mapsto> []),
       miner_hotkeys := (miner_hotkeys t)(u \<mapsto> miner_hotkey)\<rparr>"

definition update :: "uid \<Rightarrow> pyfloat \<Rightarrow> pyfloat \<Rightarrow> string \<Rightarrow> tracker \<Rightarrow> tracker" where
  "update u prediction label miner_hotkey t =
     t\<lparr>prediction_history :=
         (prediction_history t)(u \<mapsto> last_n 100 (history_of t u @ [(prediction, label)])),
       miner_hotkeys := (miner_hotkeys t)(u \<mapsto> miner_hotkey)\<rparr>"

definition get_metrics ::
  "((pyfloat \<times> pyfloat) list \<Rightarrow> metrics) \<Rightarrow> uid \<Rightarrow> nat \<Rightarrow> tracker \<Rightarrow> metrics" where
  "get_metrics metric_fn u window t = metric_fn (last_n window (history_of t u))"

definition tracker_ops_of ::
  "((pyfloat \<times> pyfloat) list \<Rightarrow> metrics) \<Rightarrow> tracker tracker_ops" where
  "tracker_ops_of metric_fn =
     \<lparr>miner_hotkeys_of = miner_hotkeys,
      reset_op = (\<lambda>u h t. (Inr (), reset_miner_history u h t)),
      update_op = (\<lambda>u p l h t. (Inr (), update u p l h t)),
      get_metrics_op = (\<lambda>u w t. (Inr (get_metrics metric_fn u w t), t))\<rparr>"

text \<open>
  Metric functions for the worked examples.  The first gives the share of observations
  whose prediction lies within one half of the label as the accuracy, and twice that
  share minus one as the correlation; the second gives nan as the correlation.
\<close>

definition close_to_label :: "pyfloat \<times> pyfloat \<Rightarrow> bool" where
  "close_to_label obs =
     (case obs of (Finite p, Finite l) \<Rightarrow> \<bar>p - l\<bar> < 1 / 2 | _ \<Rightarrow> False)"

definition sample_metrics :: "(pyfloat \<times> pyfloat) list \<Rightarrow> metrics" where
  "sample_metrics obs =
     (let share = real (length (filter close_to_label obs)) / real (length obs)
      in [''mcc'' \<mapsto> Finite (2 * share - 1), ''accuracy'' \<mapsto> Finite share])"

definition nan_metrics :: "(pyfloat \<times> pyfloat) list \<Rightarrow> metrics" where
  "nan_metrics obs = [''mcc'' \<mapsto> NaN, ''accuracy'' \<mapsto> Finite 1]"

text \<open>
  A tracker has finite metrics when every metrics dictionary its \<open>get_metrics\<close>
  returns has finite \<open>mcc\<close> and \<open>accuracy\<close> values, where it has them.
\<close>

definition finite_entry :: "metrics \<Rightarrow> string \<Rightarrow> bool" where
  "finite_entry m k = (case m k of None \<Rightarrow> True | Some x \<Rightarrow> is_finite x)"

definition finite_metrics :: "'t tracker_ops \<Rightarrow> bool" where
  "finite_metrics ops =
     (\<forall>u w t m t'. get_metrics_op ops u w t = (Inr m, t') \<longrightarrow>
        finite_entry m ''mcc'' \<and> finite_entry m ''accuracy'')"

definition empty_tracker :: tracker where
  "empty_tracker = \<lparr>prediction_history = Map.empty, miner_hotkeys = Map.empty\<rparr>"

section \<open>Content hasher and client wrapper (client.py)\<close>

text \<open>
  Raw image bytes are lists of octets.  The SHA-256 digest comes from the standard
  library and is the parameter \<open>sha256\<close> of everything that hashes; \<open>hexdigest\<close>
  writes a digest as lower-case hexadecimal, two characters for each octet.
\<close>

type_synonym bytes = "8 word list"

definition hex_digit :: "nat \<Rightarrow> char" where
  "hex_digit n = ''0123456789abcdef'' ! (n mod 16)"

definition hexdigest :: "bytes \<Rightarrow> string" where
  "hexdigest digest = concat (map (\<lambda>b. [hex_digit (unat b div 16), hex_digit (unat b mod 16)]) digest)"

definition client_hash_image_bytes :: "(bytes \<Rightarrow> bytes) \<Rightarrow> bytes \<Rightarrow> string" where
  "client_hash_image_bytes sha256 image_bytes = hexdigest (sha256 image_bytes)"

text \<open>
  A decoded JSON value, an object being the list of its keys and values and a string
  being given by its UTF-8 bytes, and Python's truth value of one: \<open>None\<close>,
  \<open>False\<close>, zero and the empty string, list and dictionary are false, everything
  else (nan too) is true.
\<close>

datatype json =
    JNull
  | JBool bool
  | JNum pyfloat
  | JStr string
  | JList "json list"
  | JObj "(string \<times> json) list"

definition truthy :: "json \<Rightarrow> bool" where
  "truthy v =
     (case v of
        JNull \<Rightarrow> False
      | JBool b \<Rightarrow> b
      | JNum x \<Rightarrow> x \<noteq> Finite 0
      | JStr s \<Rightarrow> s \<noteq> []
      | JList xs \<Rightarrow> xs \<noteq> []
      | JObj kv \<Rightarrow> kv \<noteq> [])"

text \<open>
  What lines 27 to 29 (the POST, \<open>raise_for_status\<close>, the JSON decoding) yield on one
  attempt: a \<open>Timeout\<close>, any other \<open>RequestException\<close> (a refused connection, an
  error status such as 504), an exception that is no request exception (\<open>Raises\<close>: a
  timeout argument the HTTP library rejects, a decoding error of the JSON library), or
  the decoded body.
\<close>

datatype outcome = Timeout | RequestException string | Raises exn | Json json

text \<open>
  The local cache store.  A key holds the bytes the store's client library made of the
  value it was given: of a number its decimal form, which reads back as the same number
  (\<open>Num\<close>), of a string the string itself (\<open>Text\<close>).  The library refuses every other
  value before anything is sent, with a \<open>DataError\<close>.  \<open>float\<close> of stored text is
  the standard library's parser, the parameter \<open>parse_float\<close>: a value, or nothing
  where Python raises \<open>ValueError\<close>.  The connection to the store and the console
  output of the \<open>print\<close> calls are taken to work.
\<close>

datatype entry = Num pyfloat | Text string

type_synonym local_cache = "string \<rightharpoonup> entry"

definition encode :: "json \<Rightarrow> exn + entry" where
  "encode v =
     (case v of
        JNum x \<Rightarrow> Inr (Num x)
      | JStr s \<Rightarrow> Inr (Text s)
      | _ \<Rightarrow> Inl (DataError ''Invalid input type''))"

definition nonempty :: "entry \<Rightarrow> bool" where
  "nonempty cached = (case cached of Num x \<Rightarrow> True | Text s \<Rightarrow> s \<noteq> [])"

definition to_float :: "(string \<Rightarrow> pyfloat option) \<Rightarrow> entry \<Rightarrow> exn + pyfloat" where
  "to_float parse_float cached =
     (case cached of
        Num x \<Rightarrow> Inr x
      | Text s \<Rightarrow>
          (case parse_float s of
             None \<Rightarrow> Inl (ValueError ''could not convert string to float'')
           | Some x \<Rightarrow> Inr x))"

text \<open>
  The retry loop of lines 25 to 47 over the attempt numbers still to come, \<open>post\<close>
  giving the outcome of each attempt.  It returns the value returned or the exception
  propagated, the number of POSTs it made, and the local cache as left.  The first
  equation is the \<open>return 0.999999999\<close> that follows the loop.  Only the two
  \<open>except\<close> clauses catch anything: a \<open>Timeout\<close> goes on with the next attempt,
  another \<open>RequestException\<close> breaks out of the loop.  A body that is no object raises
  a \<open>TypeError\<close>: at line 31 when it is a number, a boolean or null, and at line 32
  or line 35, where it is indexed by a string, when it is a list or a string.
\<close>

fun attempts ::
  "(nat \<Rightarrow> outcome) \<Rightarrow> string \<Rightarrow> nat list \<Rightarrow> local_cache
     \<Rightarrow> (exn + json) \<times> nat \<times> local_cache" where
  "attempts post image_hash [] rdb = (Inr (JNum (Finite 0.999999999)), 0, rdb)"
| "attempts post image_hash (attempt # rest) rdb =
     (case post attempt of
        Timeout \<Rightarrow>
          (case attempts post image_hash rest rdb of (r, n, rdb') \<Rightarrow> (r, Suc n, rdb'))
      | RequestException e \<Rightarrow> (Inr (JNum (Finite 0.999999999)), 1, rdb)
      | Raises e \<Rightarrow> (Inl e, 1, rdb)
      | Json result \<Rightarrow>
          (case result of
             JObj kv \<Rightarrow>
               if map_of kv ''error'' \<noteq> None
               then (case attempts post image_hash rest rdb of
                       (r, n, rdb') \<Rightarrow> (r, Suc n, rdb'))
               else
                 (case map_of kv ''from_cache'' of
                    None \<Rightarrow> (Inl (KeyError ''from_cache''), 1, rdb)
                  | Some served \<Rightarrow>
                      (case map_of kv ''probability'' of
                         None \<Rightarrow> (Inl (KeyError ''probability''), 1, rdb)
                       | Some p \<Rightarrow>
                           if \<not> truthy served
                           then (case encode p of
                                   Inl e \<Rightarrow> (Inl e, 1, rdb)
                                 | Inr stored \<Rightarrow> (Inr p, 1, rdb(image_hash \<mapsto> stored)))
                           else (Inr p, 1, rdb)))
           | _ \<Rightarrow> (Inl (TypeError ''body is not an object''), 1, rdb)))"

text \<open>
  \<open>predict_with_cache\<close>.  The broker is the parameter \<open>post\<close>: given the uploaded
  bytes, the timeout and the attempt number, the outcome of that attempt.  A cached
  entry counts when its bytes are not empty (line 19) and is then converted by
  \<open>float\<close> (line 21).  \<open>range(1, max_retries + 1)\<close> is empty when \<open>max_retries\<close>
  is below 1.
\<close>

definition predict_with_cache ::
  "(bytes \<Rightarrow> bytes) \<Rightarrow> (string \<Rightarrow> pyfloat option) \<Rightarrow> (bytes \<Rightarrow> real \<Rightarrow> nat \<Rightarrow> outcome)
     \<Rightarrow> bytes \<Rightarrow> real \<Rightarrow> int \<Rightarrow> local_cache \<Rightarrow> (exn + json) \<times> nat \<times> local_cache" where
  "predict_with_cache sha256 parse_float post image_bytes timeout_sec max_retries rdb =
     (let image_hash = client_hash_image_bytes sha256 image_bytes;
          retry = attempts (post image_bytes timeout_sec) image_hash
                    [1..<nat (max_retries + 1)] rdb
      in case rdb image_hash of
           None \<Rightarrow> retry
         | Some cached \<Rightarrow>
             if nonempty cached
             then (case to_float parse_float cached of
                     Inl e \<Rightarrow> (Inl e, 0, rdb)
                   | Inr x \<Rightarrow> (Inr (JNum x), 0, rdb))
             else retry)"

text \<open>
  Four properties used to state what the wrapper guarantees.  An outcome is handled
  when it is a timeout, another request exception, or an object that has an
  \<open>"error"\<close> key or else has \<open>"from_cache"\<close> and \<open>"probability"\<close>, the probability
  being a number whenever \<open>"from_cache"\<close> is false.  An attempt fails when
  it ends in a timeout, another request exception or an object with an \<open>"error"\<close>
  key.  The cache misses when it holds nothing, or only empty bytes, under the key; it
  is readable when what it holds there, if not empty, converts to a float.
\<close>

definition is_number :: "json \<Rightarrow> bool" where
  "is_number v = (case v of JNum x \<Rightarrow> True | _ \<Rightarrow> False)"

definition handled :: "outcome \<Rightarrow> bool" where
  "handled out =
     (case out of
        Timeout \<Rightarrow> True
      | RequestException e \<Rightarrow> True
      | Raises e \<Rightarrow> False
      | Json result \<Rightarrow>
          (case result of
             JObj kv \<Rightarrow>
               map_of kv ''error'' \<noteq> None
               \<or> (case map_of kv ''from_cache'' of
                     None \<Rightarrow> False
                   | Some served \<Rightarrow>
                       (case map_of kv ''probability'' of
                          None \<Rightarrow> False
                        | Some p \<Rightarrow> truthy served \<or> is_number p))
           | _ \<Rightarrow> False))"

definition fails :: "outcome \<Rightarrow> bool" where
  "fails out =
     (case out of
        Timeout \<Rightarrow> True
      | RequestException e \<Rightarrow> True
      | Raises e \<Rightarrow> False
      | Json result \<Rightarrow> (case result of JObj kv \<Rightarrow> map_of kv ''error'' \<noteq> None | _ \<Rightarrow> False))"

definition misses :: "local_cache \<Rightarrow> string \<Rightarrow> bool" where
  "misses rdb image_hash =
     (case rdb image_hash of None \<Rightarrow> True | Some c \<Rightarrow> \<not> nonempty c)"

definition readable :: "(string \<Rightarrow> pyfloat option) \<Rightarrow> local_cache \<Rightarrow> string \<Rightarrow> bool" where
  "readable parse_float rdb image_hash =
     (case rdb image_hash of
        None \<Rightarrow> True
      | Some c \<Rightarrow> \<not> nonempty c \<or> \<not> isl (to_float parse_float c))"

text \<open>
  A digest, a float parser and brokers for the worked examples: a broker that times out
  twice and then answers, one that refuses the connection, one whose answer lacks a key,
  and one whose answer has a null probability.  The parser knows one literal.
\<close>

definition sample_digest :: "bytes \<Rightarrow> bytes" where
  "sample_digest image_bytes = take 32 (image_bytes @ replicate 32 0)"

definition sample_parse :: "string \<Rightarrow> pyfloat option" where
  "sample_parse s = (if s = ''0.25'' then Some (Finite (1 / 4)) else None)"

definition slow_broker :: "bytes \<Rightarrow> real \<Rightarrow> nat \<Rightarrow> outcome" where
  "slow_broker image_bytes timeout_sec attempt =
     (if attempt < 3 then Timeout
      else Json (JObj [(''from_cache'', JBool False), (''probability'', JNum (Finite (1 / 4)))]))"

definition refusing_broker :: "bytes \<Rightarrow> real \<Rightarrow> nat \<Rightarrow> outcome" where
  "refusing_broker image_bytes timeout_sec attempt = RequestException ''Connection refused''"

definition careless_broker :: "bytes \<Rightarrow> real \<Rightarrow> nat \<Rightarrow> outcome" where
  "careless_broker image_bytes timeout_sec attempt =
     Json (JObj [(''probability'', JNum (Finite (1 / 4)))])"

definition null_broker :: "bytes \<Rightarrow> real \<Rightarrow> nat \<Rightarrow> outcome" where
  "null_broker image_bytes timeout_sec attempt =
     Json (JObj [(''from_cache'', JBool False), (''probability'', JNull)])"

section \<open>Inference broker (gpu_server_api_with_queue.py)\<close>

definition hash_image_bytes :: "(bytes \<Rightarrow> bytes) \<Rightarrow> bytes \<Rightarrow> string" where
  "hash_image_bytes sha256 image_bytes = hexdigest (sha256 image_bytes)"

text \<open>
  The broker's cache store is a key-value map from fingerprints to probabilities: a
  lookup answers a value or nothing, and a stored probability reads back unchanged.
\<close>

type_synonym cache = "string \<rightharpoonup> real"

text \<open>
  A job is the dictionary of line 91: the event is set or not, the result is absent
  until the worker stores \<open>{"probability": prob}\<close>.
\<close>

record job =
  image_hash :: string
  image_bytes :: bytes
  result_event :: bool
  result :: "real option"

text \<open>
  The answers of the endpoint: \<open>Reply c p\<close> is the body
  \<open>{"from_cache": c, "probability": p}\<close> with status 200, \<open>ErrorReply code msg\<close> the
  body \<open>{"error": msg}\<close> with an error status.
\<close>

datatype response = Reply bool real | ErrorReply nat string

text \<open>
  The state of the running server.  Job dictionaries are shared between the queue, the
  worker and the request handler that made them, so they live in a heap (\<open>jobs\<close>,
  addressed by position) and the queue holds references.  \<open>waiting\<close> lists the request
  handlers blocked in \<open>result_event.wait\<close>, each by its job; \<open>inference_calls\<close> logs
  the inputs \<open>run_inference\<close> has been called on; \<open>worker_alive\<close> says that the
  worker thread is running.  The model runs from start-up to shutdown: \<open>stop_event\<close>
  is not set.
\<close>

record server =
  rdb :: cache
  jobs :: "job list"
  job_queue :: "nat list"
  waiting :: "nat list"
  inference_calls :: "bytes list"
  worker_alive :: bool

text \<open>
  One iteration of the worker loop, lines 52 to 71, taken as one step.  The inference
  (decoding the image and running the network) is the parameter \<open>run_inference\<close>: it
  returns a probability or raises, as the image library does on bytes that are no
  image.  Nothing in the loop catches that exception, so it ends the worker thread,
  after the job has been taken from the queue.
\<close>

definition inference_worker :: "(bytes \<Rightarrow> exn + real) \<Rightarrow> server \<Rightarrow> server" where
  "inference_worker run_inference s =
     (if \<not> worker_alive s then s
      else
        case job_queue s of
          [] \<Rightarrow> s
        | j # rest \<Rightarrow>
            (let jb = jobs s ! j in
             case rdb s (image_hash jb) of
               Some cached \<Rightarrow>
                 s\<lparr>job_queue := rest,
                   jobs := (jobs s)[j := jb\<lparr>result := Some cached, result_event := True\<rparr>]\<rparr>
             | None \<Rightarrow>
                 (case run_inference (image_bytes jb) of
                    Inl e \<Rightarrow>
                      s\<lparr>job_queue := rest,
                        inference_calls := inference_calls s @ [image_bytes jb],
                        worker_alive := False\<rparr>
                  | Inr prob \<Rightarrow>
                      s\<lparr>job_queue := rest,
                        inference_calls := inference_calls s @ [image_bytes jb],
                        rdb := (rdb s)(image_hash jb \<mapsto> prob),
                        jobs := (jobs s)[j := jb\<lparr>result := Some prob, result_event := True\<rparr>]\<rparr>)))"

text \<open>
  \<open>predict\<close>, lines 80 to 99: up to the point where the handler blocks.  It answers at
  once on a cache hit; otherwise it leaves a new job in the queue and waits on it.
\<close>

definition predict_submit ::
  "(bytes \<Rightarrow> bytes) \<Rightarrow> bytes \<Rightarrow> server \<Rightarrow> (response + nat) \<times> server" where
  "predict_submit sha256 file s =
     (let h = hash_image_bytes sha256 file in
      case rdb s h of
        Some cached \<Rightarrow> (Inl (Reply True cached), s)
      | None \<Rightarrow>
          (let j = length (jobs s);
               jb = \<lparr>image_hash = h, image_bytes = file, result_event = False, result = None\<rparr>
           in (Inr j,
               s\<lparr>jobs := jobs s @ [jb], job_queue := job_queue s @ [j],
                 waiting := waiting s @ [j]\<rparr>)))"

text \<open>
  \<open>predict\<close>, lines 102 to 108: the wait returns.  \<open>Event.wait(timeout=60)\<close> returns
  the event's flag, true as soon as the worker has set it and false when the 60 seconds
  have passed without that; elapsed time itself is not modelled, so the wait of a job
  whose event is not set may end at any moment.  A result still absent would make line
  108 raise, which the framework answers with status 500.
\<close>

definition predict_resume :: "nat \<Rightarrow> server \<Rightarrow> response \<times> server" where
  "predict_resume j s =
     (let waited = result_event (jobs s ! j);
          s' = s\<lparr>waiting := removeAll j (waiting s)\<rparr>
      in if \<not> waited then (ErrorReply 504 ''Inference timeout'', s')
         else (case result (jobs s ! j) of
                 None \<Rightarrow> (ErrorReply 500 ''Internal Server Error'', s')
               | Some p \<Rightarrow> (Reply False p, s')))"

text \<open>
  The server as a transition system: a request arrives, the worker runs one iteration,
  or the wait of a blocked handler returns.  A step gives the answer sent, if any.
\<close>

datatype event = Request bytes | Worker | WaitReturns nat

definition step ::
  "(bytes \<Rightarrow> bytes) \<Rightarrow> (bytes \<Rightarrow> exn + real) \<Rightarrow> event \<Rightarrow> server
     \<Rightarrow> response option \<times> server" where
  "step sha256 run_inference ev s =
     (case ev of
        Request file \<Rightarrow>
          (case predict_submit sha256 file s of
             (Inl r, s') \<Rightarrow> (Some r, s')
           | (Inr j, s') \<Rightarrow> (None, s'))
      | Worker \<Rightarrow> (None, inference_worker run_inference s)
      | WaitReturns j \<Rightarrow>
          if j \<in> set (waiting s)
          then (case predict_resume j s of (r, s') \<Rightarrow> (Some r, s'))
          else (None, s))"

fun run ::
  "(bytes \<Rightarrow> bytes) \<Rightarrow> (bytes \<Rightarrow> exn + real) \<Rightarrow> event list \<Rightarrow> server \<Rightarrow> server" where
  "run sha256 run_inference [] s = s"
| "run sha256 run_inference (ev # evs) s =
     run sha256 run_inference evs (snd (step sha256 run_inference ev s))"

text \<open>
  The server at start-up: the worker running, nothing queued, and a cache store
  holding whatever earlier runs have left in it.
\<close>

definition start :: "cache \<Rightarrow> server" where
  "start store =
     \<lparr>rdb = store, jobs = [], job_queue = [], waiting = [], inference_calls = [],
      worker_alive = True\<rparr>"

text \<open>
  How the client's HTTP layer sees an answer of the endpoint: a 200 body is decoded,
  an error status makes \<open>raise_for_status\<close> raise.
\<close>

definition http_outcome :: "response \<Rightarrow> outcome" where
  "http_outcome r =
     (case r of
        Reply c p \<Rightarrow>
          Json (JObj [(''from_cache'', JBool c), (''probability'', JNum (Finite p))])
      | ErrorReply code msg \<Rightarrow> RequestException ''HTTPError'')"

text \<open>An inference for the worked examples: an empty upload is not an image.\<close>

definition sample_inference :: "bytes \<Rightarrow> exn + real" where
  "sample_inference upload =
     (if upload = [] then Inl (Raised ''cannot identify image file'')
      else Inr (1 / (1 + real (length upload))))"

text \<open>
  The invariant of the server's state: queued and awaited references point into the
  heap, every job's hash is the hash of its bytes, a job whose event is set has its
  result in the cache store under its hash, and while the worker runs a job whose event
  is not set is still queued.
\<close>

definition consistent :: "(bytes \<Rightarrow> bytes) \<Rightarrow> server \<Rightarrow> bool" where
  "consistent sha256 s =
     ((\<forall>j\<in>set (job_queue s). j < length (jobs s))
      \<and> (\<forall>j\<in>set (waiting s). j < length (jobs s))
      \<and> (\<forall>j<length (jobs s).
            image_hash (jobs s ! j) = hash_image_bytes sha256 (image_bytes (jobs s ! j)))
      \<and> (\<forall>j<length (jobs s).
            if result_event (jobs s ! j)
            then (\<exists>p. result (jobs s ! j) = Some p \<and> rdb s (image_hash (jobs s ! j)) = Some p)
            else (worker_alive s \<longrightarrow> j \<in> set (job_queue s))))"

text \<open>
  A job is served within \<open>n + 1\<close> further worker iterations when its event is
  already set, or the worker runs, the job is among the first \<open>n + 1\<close> jobs of the
  queue and the inference returns on each of those.
\<close>

definition served_within :: "(bytes \<Rightarrow> exn + real) \<Rightarrow> nat \<Rightarrow> nat \<Rightarrow> server \<Rightarrow> bool" where
  "served_within run_inference n j s =
     (j < length (jobs s)
      \<and> (result_event (jobs s ! j)
           \<or> (worker_alive s \<and> n < length (job_queue s)
                \<and> j \<in> set (take (Suc n) (job_queue s))
                \<and> (\<forall>k\<in>set (take (Suc n) (job_queue s)).
                      k < length (jobs s)
                      \<and> \<not> isl (run_inference (image_bytes (jobs s ! k)))))))"

text \<open>A broker, as the client sees it, that relays one given answer of the endpoint.\<close>

definition relaying :: "response \<Rightarrow> bytes \<Rightarrow> real \<Rightarrow> nat \<Rightarrow> outcome" where
  "relaying r upload timeout_sec attempt = http_outcome r"

section \<open>Reward engine: properties\<close>

lemmas reward_eval = get_rewards_def score_miner_def try_block_def tracked_reward_def
  tracker_ops_of_def sample_metrics_def empty_tracker_def put_tracker_def
  update_def get_metrics_def history_of_def last_n_def compute_penalty_def
  reset_miner_history_def close_to_label_def feq_def Let_def

subsection \<open>The multiplicative gate\<close>

lemma is_finite_iff: "is_finite x \<longleftrightarrow> (\<exists>a. x = Finite a)"
  by (cases x) (simp_all add: is_finite_def)

lemma fmul_finite_zero: "is_finite x \<Longrightarrow> fmul x (Finite 0) = Finite 0"
  by (auto simp: is_finite_iff)

lemma half_sum_finite:
  "is_finite x \<Longrightarrow> is_finite y \<Longrightarrow>
     is_finite (fadd (fmul (Finite 0.5) x) (fmul (Finite 0.5) y))"
  by (auto simp: is_finite_iff)

lemma compute_penalty_invalid:
  "flt y (Finite 0) \<or> flt (Finite 1) y \<Longrightarrow> compute_penalty y = Finite 0"
  by (simp add: compute_penalty_def)

lemma finite_metricsD:
  assumes "finite_metrics ops" and "get_metrics_op ops u w t = (Inr m, t')"
  shows "m ''mcc'' = Some x \<Longrightarrow> is_finite x" and "m ''accuracy'' = Some y \<Longrightarrow> is_finite y"
proof -
  from assms have f: "finite_entry m ''mcc'' \<and> finite_entry m ''accuracy''"
    unfolding finite_metrics_def by blast
  from f show "m ''mcc'' = Some x \<Longrightarrow> is_finite x" by (simp add: finite_entry_def)
  from f show "m ''accuracy'' = Some y \<Longrightarrow> is_finite y" by (simp add: finite_entry_def)
qed

text \<open>What a returned reward of the \<open>else\<close> branch is made of.\<close>

lemma tracked_reward_shape:
  assumes "tracked_reward ops label ax u p st = (Inr r, st1)"
  shows "\<exists>t1 m100 t2 m10 t3 mcc acc.
           get_metrics_op ops u 100 t1 = (Inr m100, t2) \<and> m100 ''mcc'' = Some mcc
           \<and> get_metrics_op ops u 10 t2 = (Inr m10, t3) \<and> m10 ''accuracy'' = Some acc
           \<and> r = fmul (fadd (fmul (Finite 0.5) mcc) (fmul (Finite 0.5) acc)) (compute_penalty p)"
  using assms
  by (simp add: tracked_reward_def Let_def
           split: option.splits prod.splits sum.splits if_splits) blast+

lemma tracked_reward_invalid:
  assumes "finite_metrics ops" and "flt p (Finite 0) \<or> flt (Finite 1) p"
    and "tracked_reward ops label ax u p st = (Inr r, st1)"
  shows "r = Finite 0"
proof -
  from tracked_reward_shape [OF assms(3)] obtain t1 m100 t2 m10 t3 mcc acc where
    g1: "get_metrics_op ops u 100 t1 = (Inr m100, t2)" and k1: "m100 ''mcc'' = Some mcc"
    and g2: "get_metrics_op ops u 10 t2 = (Inr m10, t3)" and k2: "m10 ''accuracy'' = Some acc"
    and r: "r = fmul (fadd (fmul (Finite 0.5) mcc) (fmul (Finite 0.5) acc)) (compute_penalty p)"
    by blast
  from finite_metricsD(1) [OF assms(1) g1 k1] have "is_finite mcc" .
  moreover from finite_metricsD(2) [OF assms(1) g2 k2] have "is_finite acc" .
  ultimately have "is_finite (fadd (fmul (Finite 0.5) mcc) (fmul (Finite 0.5) acc))"
    by (rule half_sum_finite)
  with r compute_penalty_invalid [OF assms(2)] show ?thesis
    by (simp add: fmul_finite_zero)
qed

lemma score_miner_no_response:
  "feq p (Finite (- 1)) \<Longrightarrow> fst (fst (score_miner ops label (ax, u, p) st)) = Finite 0"
  by (simp add: score_miner_def try_block_def split: option.splits)

lemma score_miner_invalid:
  assumes "finite_metrics ops" and "flt p (Finite 0) \<or> flt (Finite 1) p"
  shows "fst (fst (score_miner ops label (ax, u, p) st)) = Finite 0"
proof (cases "feq p (Finite (- 1))")
  case True
  then show ?thesis by (rule score_miner_no_response)
next
  case False
  obtain r0 st0 where tr: "tracked_reward ops label ax u p st = (r0, st0)"
    by (cases "tracked_reward ops label ax u p st")
  show ?thesis
  proof (cases r0)
    case (Inl e)
    with tr False show ?thesis by (simp add: score_miner_def try_block_def)
  next
    case (Inr v)
    with tr assms have "v = Finite 0" using tracked_reward_invalid by blast
    with Inr tr False show ?thesis
      by (simp add: score_miner_def try_block_def split: option.splits)
  qed
qed

lemma score_batch_length:
  "score_batch ops label xs st = (rs, ms, st') \<Longrightarrow> length rs = length xs \<and> length ms = length xs"
  by (induction xs arbitrary: st rs ms st') (auto split: prod.splits)

lemma score_batch_zero_at:
  assumes "score_batch ops label xs st = (rs, ms, st')"
    and "i < length xs"
    and "\<And>s. fst (fst (score_miner ops label (xs ! i) s)) = Finite 0"
  shows "rs ! i = Finite 0"
  using assms
proof (induction xs arbitrary: st rs ms st' i)
  case Nil
  then show ?case by simp
next
  case (Cons x xs)
  obtain r m st1 where sm: "score_miner ops label x st = ((r, m), st1)"
    by (metis prod.exhaust)
  obtain rs1 ms1 st2 where sb: "score_batch ops label xs st1 = (rs1, ms1, st2)"
    by (metis prod.exhaust)
  from Cons.prems(1) sm sb have rs: "rs = r # rs1" by simp
  show ?case
  proof (cases i)
    case 0
    with Cons.prems(3) [of st] sm have "r = Finite 0" by simp
    with rs 0 show ?thesis by simp
  next
    case (Suc j)
    with Cons.prems have "j < length xs"
      and "\<And>s. fst (fst (score_miner ops label (xs ! j) s)) = Finite 0" by auto
    from Cons.IH [OF sb this] rs Suc show ?thesis by simp
  qed
qed

text \<open>
  Claim C1, as amended.  In every call of \<open>get_rewards\<close>, a miner whose prediction
  equals -1 gets the reward 0, whatever the tracker holds and does.  A miner whose
  prediction is below 0 or above 1 gets the reward 0 whatever its tracked history holds,
  provided the \<open>mcc\<close> and \<open>accuracy\<close> values that the tracker's \<open>get_metrics\<close>
  returns are finite numbers, neither nan nor infinite.
\<close>

theorem get_rewards_invalid_prediction_zero:
  assumes "get_rewards ops label responses uids axons trackers = (rewards, miner_metrics, trackers')"
    and "i < length rewards"
  shows "(feq (responses ! i) (Finite (- 1)) \<longrightarrow> rewards ! i = Finite 0)
       \<and> (finite_metrics ops
            \<and> (flt (responses ! i) (Finite 0) \<or> flt (Finite 1) (responses ! i))
          \<longrightarrow> rewards ! i = Finite 0)"
proof -
  let ?xs = "zip axons (zip uids responses)"
  obtain st' where sb: "score_batch ops label ?xs
      \<lparr>performance_trackers = trackers, metrics_100 = None\<rparr> = (rewards, miner_metrics, st')"
    using assms(1) by (auto simp: get_rewards_def split: prod.splits)
  from score_batch_length [OF sb] assms(2) have i: "i < length ?xs" by simp
  then have xi: "?xs ! i = (axons ! i, uids ! i, responses ! i)" by simp
  show ?thesis
  proof (intro conjI impI)
    assume "feq (responses ! i) (Finite (- 1))"
    then have "\<And>s. fst (fst (score_miner ops label (?xs ! i) s)) = Finite 0"
      unfolding xi by (rule score_miner_no_response)
    with sb i show "rewards ! i = Finite 0" by (rule score_batch_zero_at)
  next
    assume a: "finite_metrics ops
        \<and> (flt (responses ! i) (Finite 0) \<or> flt (Finite 1) (responses ! i))"
    then have "\<And>s. fst (fst (score_miner ops label (?xs ! i) s)) = Finite 0"
      unfolding xi using score_miner_invalid by blast
    with sb i show "rewards ! i = Finite 0" by (rule score_batch_zero_at)
  qed
qed

lemma finite_sample_metrics: "finite_metrics (tracker_ops_of sample_metrics)"
  by (auto simp: finite_metrics_def tracker_ops_of_def get_metrics_def sample_metrics_def
        finite_entry_def is_finite_def Let_def)

theorem get_rewards_invalid_prediction_zero_witness:
  "flt (Finite 1) (Finite 1.2)
   \<and> the ((fst (snd (get_rewards (tracker_ops_of sample_metrics) (Finite 1)
        [Finite 0.9, Finite (- 1), Finite 1.2] [1, 2, 3]
        [\<lparr>hotkey = ''A''\<rparr>, \<lparr>hotkey = ''B''\<rparr>, \<lparr>hotkey = ''C''\<rparr>]
        [''image'' \<mapsto> empty_tracker])) ! 2) ''image'') ''accuracy'' = Some (Finite 1)
   \<and> fst (get_rewards (tracker_ops_of sample_metrics) (Finite 1)
        [Finite 0.9, Finite (- 1), Finite 1.2] [1, 2, 3]
        [\<lparr>hotkey = ''A''\<rparr>, \<lparr>hotkey = ''B''\<rparr>, \<lparr>hotkey = ''C''\<rparr>]
        [''image'' \<mapsto> empty_tracker]) ! 2 = Finite 0
   \<and> fst (get_rewards (tracker_ops_of sample_metrics) (Finite 1)
        [Finite 0.9, Finite (- 1), Finite 1.2] [1, 2, 3]
        [\<lparr>hotkey = ''A''\<rparr>, \<lparr>hotkey = ''B''\<rparr>, \<lparr>hotkey = ''C''\<rparr>]
        [''image'' \<mapsto> empty_tracker]) ! 1 = Finite 0"
proof -
  let ?g = "get_rewards (tracker_ops_of sample_metrics) (Finite 1)
        [Finite 0.9, Finite (- 1), Finite 1.2] [1, 2, 3]
        [\<lparr>hotkey = ''A''\<rparr>, \<lparr>hotkey = ''B''\<rparr>, \<lparr>hotkey = ''C''\<rparr>]
        [''image'' \<mapsto> empty_tracker]"
  have g: "?g = (fst ?g, fst (snd ?g), snd (snd ?g))" by simp
  have l2: "2 < length (fst ?g)" by (simp add: reward_eval)
  have l1: "1 < length (fst ?g)" by (simp add: reward_eval)
  have above: "flt (Finite 1) ([Finite 0.9, Finite (- 1), Finite 1.2] ! 2)" by simp
  have none: "feq ([Finite 0.9, Finite (- 1), Finite 1.2] ! 1) (Finite (- 1))"
    by (simp add: feq_def)
  have acc: "the ((fst (snd ?g) ! 2) ''image'') ''accuracy'' = Some (Finite 1)"
    by (simp add: reward_eval)
  from get_rewards_invalid_prediction_zero [OF g l2] finite_sample_metrics above
  have "fst ?g ! 2 = Finite 0" by blast
  moreover from get_rewards_invalid_prediction_zero [OF g l1] none
  have "fst ?g ! 1 = Finite 0" by blast
  ultimately show ?thesis using acc by simp
qed

text \<open>
  The claim as first stated, whatever the tracker returns, fails: the gate is a
  multiplication, and a correlation of nan times the penalty 0 is nan, so a prediction
  of 1.5 scored against such metrics does not get the reward 0.
\<close>

theorem get_rewards_nan_metric_counterexample:
  "flt (Finite 1) (Finite 1.5)
   \<and> fst (get_rewards (tracker_ops_of nan_metrics) (Finite 1) [Finite 1.5] [1]
        [\<lparr>hotkey = ''A''\<rparr>] [''image'' \<mapsto> empty_tracker]) = [NaN]"
  by (simp add: reward_eval nan_metrics_def)

subsection \<open>Isolation of a failing miner\<close>

lemma tracked_reward_binds_metrics:
  "tracked_reward ops label ax u p st = (Inr r, st1) \<Longrightarrow> metrics_100 st1 \<noteq> None"
  by (auto simp: tracked_reward_def Let_def
           split: option.splits prod.splits sum.splits if_splits)

lemma try_block_raises_zero:
  assumes "try_block ops label ax u p st = (Inl e, d, st1)"
  shows "(case miner_modality_rewards d ''image'' of None \<Rightarrow> Finite 0 | Some r \<Rightarrow> r) = Finite 0"
proof (cases "feq p (Finite (- 1))")
  case True
  with assms show ?thesis
    by (auto simp: try_block_def split: option.splits)
next
  case False
  obtain r0 st0 where tr: "tracked_reward ops label ax u p st = (r0, st0)"
    by (cases "tracked_reward ops label ax u p st")
  show ?thesis
  proof (cases r0)
    case (Inl e')
    with tr False assms show ?thesis by (auto simp: try_block_def)
  next
    case (Inr v)
    with tr have "metrics_100 st0 \<noteq> None" using tracked_reward_binds_metrics by blast
    with Inr tr False assms show ?thesis
      by (auto simp: try_block_def split: option.splits)
  qed
qed

lemma score_batch_append:
  "score_batch ops label (xs @ ys) st =
     (case score_batch ops label xs st of
        (rs1, ms1, st1) \<Rightarrow>
          (case score_batch ops label ys st1 of
             (rs2, ms2, st2) \<Rightarrow> (rs1 @ rs2, ms1 @ ms2, st2)))"
  by (induction xs arbitrary: st) (auto split: prod.splits)

text \<open>
  Claim C6.  When the \<open>try\<close> block of the miner at position \<open>i\<close> raises, started
  from the state the miners before it have left, the exception is caught inside the
  loop: \<open>get_rewards\<close> still returns one reward for every scored miner, the reward at
  position \<open>i\<close> is 0, and the rewards after it are those of scoring the remaining
  miners from the state the failed computation left behind.
\<close>

theorem get_rewards_isolates_failure:
  assumes i: "i < length (zip axons (zip uids responses))"
    and before: "score_batch ops label (take i (zip axons (zip uids responses)))
                   \<lparr>performance_trackers = trackers, metrics_100 = None\<rparr>
                   = (rs1, ms1, st1)"
    and raises: "try_block ops label (axons ! i) (uids ! i) (responses ! i) st1 = (Inl e, d, st2)"
  shows "length (fst (get_rewards ops label responses uids axons trackers))
           = length (zip axons (zip uids responses))
       \<and> fst (get_rewards ops label responses uids axons trackers) ! i = Finite 0
       \<and> drop (Suc i) (fst (get_rewards ops label responses uids axons trackers))
           = fst (score_batch ops label (drop (Suc i) (zip axons (zip uids responses))) st2)"
proof -
  let ?xs = "zip axons (zip uids responses)"
  let ?st0 = "\<lparr>performance_trackers = trackers, metrics_100 = None\<rparr>"
  have xi: "?xs ! i = (axons ! i, uids ! i, responses ! i)" using i by simp
  have split: "?xs = take i ?xs @ ?xs ! i # drop (Suc i) ?xs"
    using i by (rule id_take_nth_drop)
  have sm: "score_miner ops label (?xs ! i) st1 = ((Finite 0, miner_modality_metrics d), st2)"
    using raises try_block_raises_zero [OF raises] by (simp add: xi score_miner_def)
  obtain rs2 ms2 st3 where rest:
    "score_batch ops label (drop (Suc i) ?xs) st2 = (rs2, ms2, st3)"
    by (metis prod.exhaust)
  have "score_batch ops label (take i ?xs @ ?xs ! i # drop (Suc i) ?xs) ?st0
          = (rs1 @ Finite 0 # rs2, ms1 @ miner_modality_metrics d # ms2, st3)"
    by (simp add: score_batch_append before sm rest)
  with split have whole: "score_batch ops label ?xs ?st0
          = (rs1 @ Finite 0 # rs2, ms1 @ miner_modality_metrics d # ms2, st3)" by simp
  have len1: "length rs1 = i"
    using score_batch_length [OF before] i by simp
  have rewards: "fst (get_rewards ops label responses uids axons trackers) = rs1 @ Finite 0 # rs2"
    using whole by (simp add: get_rewards_def)
  have "length (rs1 @ Finite 0 # rs2) = length ?xs"
    using score_batch_length [OF whole] by simp
  moreover have "(rs1 @ Finite 0 # rs2) ! i = Finite 0" using len1 by (simp add: nth_append)
  moreover have "drop (Suc i) (rs1 @ Finite 0 # rs2) = rs2" using len1 by simp
  ultimately show ?thesis using rewards rest by simp
qed

theorem get_rewards_isolates_failure_witness:
  "try_block (tracker_ops_of sample_metrics) (Finite 1) \<lparr>hotkey = ''A''\<rparr> 1 (Finite (- 1))
       \<lparr>performance_trackers = [''image'' \<mapsto> empty_tracker], metrics_100 = None\<rparr>
     = (Inl (UnboundLocalError ''metrics_100''),
        \<lparr>miner_modality_rewards = [''image'' \<mapsto> Finite 0], miner_modality_metrics = Map.empty\<rparr>,
        \<lparr>performance_trackers = [''image'' \<mapsto> empty_tracker], metrics_100 = None\<rparr>)
   \<and> fst (get_rewards (tracker_ops_of sample_metrics) (Finite 1)
        [Finite (- 1), Finite 0.9] [1, 2]
        [\<lparr>hotkey = ''A''\<rparr>, \<lparr>hotkey = ''B''\<rparr>] [''image'' \<mapsto> empty_tracker])
     = [Finite 0, Finite 1]"
proof -
  let ?st0 = "\<lparr>performance_trackers = [''image'' \<mapsto> empty_tracker], metrics_100 = None\<rparr>"
  let ?axons = "[\<lparr>hotkey = ''A''\<rparr>, \<lparr>hotkey = ''B''\<rparr>]"
  let ?rs = "[Finite (- 1), Finite 0.9]"
  let ?g = "fst (get_rewards (tracker_ops_of sample_metrics) (Finite 1) ?rs [1, 2] ?axons
            [''image'' \<mapsto> empty_tracker])"
  have i: "0 < length (zip ?axons (zip [1, 2::int] ?rs))" by simp
  have before: "score_batch (tracker_ops_of sample_metrics) (Finite 1)
      (take 0 (zip ?axons (zip [1, 2] ?rs))) ?st0 = ([], [], ?st0)" by simp
  have raises: "try_block (tracker_ops_of sample_metrics) (Finite 1) (?axons ! 0) ([1, 2] ! 0)
      (?rs ! 0) ?st0
     = (Inl (UnboundLocalError ''metrics_100''),
        \<lparr>miner_modality_rewards = [''image'' \<mapsto> Finite 0], miner_modality_metrics = Map.empty\<rparr>,
        ?st0)"
    by (simp add: try_block_def feq_def)
  have rest: "fst (score_batch (tracker_ops_of sample_metrics) (Finite 1)
      (drop (Suc 0) (zip ?axons (zip [1, 2] ?rs))) ?st0) = [Finite 1]"
    by (simp add: reward_eval)
  from get_rewards_isolates_failure [OF i before raises] rest
  have "length ?g = 2" and "?g ! 0 = Finite 0" and "drop (Suc 0) ?g = [Finite 1]"
    by simp_all
  then have "?g = [Finite 0, Finite 1]"
    by (cases ?g) auto
  with raises show ?thesis by simp
qed

text \<open>
  Claim C10.  Scoring an entry whose prediction is -1 leaves the whole scoring state
  (every tracker, for this miner and for all others) exactly as it was, gives the
  reward 0, and does not depend on the entry's axon: the hotkey is never read.
\<close>

theorem score_miner_no_response_frame:
  "snd (score_miner ops label (ax, u, Finite (- 1)) st) = st
   \<and> fst (fst (score_miner ops label (ax, u, Finite (- 1)) st)) = Finite 0
   \<and> score_miner ops label (ax', u, Finite (- 1)) st
       = score_miner ops label (ax, u, Finite (- 1)) st"
  by (simp add: score_miner_def try_block_def feq_def split: option.splits)

text \<open>
  Claim C5.  For a prediction other than -1, when the tracker already knows the miner's
  UID under a hotkey different from the current one, the miner's history is reset before
  the new observation is recorded: afterwards the history is exactly that one
  (prediction, label) pair, the tracked hotkey is the current one, and both metric
  windows, hence the reward, are computed from that single observation.
\<close>

theorem score_miner_hotkey_change_resets:
  assumes "\<not> feq pred_prob (Finite (- 1))"
    and "performance_trackers st ''image'' = Some t"
    and "miner_hotkeys t u = Some h"
    and "h \<noteq> hotkey ax"
  shows "performance_trackers (snd (score_miner (tracker_ops_of metric_fn) label (ax, u, pred_prob) st))
            ''image''
           = Some (update u pred_prob label (hotkey ax) (reset_miner_history u (hotkey ax) t))
       \<and> prediction_history
            (update u pred_prob label (hotkey ax) (reset_miner_history u (hotkey ax) t)) u
           = Some [(pred_prob, label)]
       \<and> miner_hotkeys
            (update u pred_prob label (hotkey ax) (reset_miner_history u (hotkey ax) t)) u
           = Some (hotkey ax)
       \<and> metrics_100 (snd (score_miner (tracker_ops_of metric_fn) label (ax, u, pred_prob) st))
           = Some (metric_fn [(pred_prob, label)])
       \<and> fst (fst (score_miner (tracker_ops_of metric_fn) label (ax, u, pred_prob) st))
           = (case metric_fn [(pred_prob, label)] ''mcc'' of
                None \<Rightarrow> Finite 0
              | Some mcc \<Rightarrow>
                 (case metric_fn [(pred_prob, label)] ''accuracy'' of
                    None \<Rightarrow> Finite 0
                  | Some acc \<Rightarrow>
                      fmul (fadd (fmul (Finite 0.5) mcc) (fmul (Finite 0.5) acc))
                        (compute_penalty pred_prob)))"
proof -
  let ?t' = "update u pred_prob label (hotkey ax) (reset_miner_history u (hotkey ax) t)"
  have hist: "history_of ?t' u = [(pred_prob, label)]"
    by (simp add: update_def reset_miner_history_def history_of_def last_n_def)
  have m100: "get_metrics metric_fn u 100 ?t' = metric_fn [(pred_prob, label)]"
    by (simp add: get_metrics_def hist last_n_def)
  have m10: "get_metrics metric_fn u 10 ?t' = metric_fn [(pred_prob, label)]"
    by (simp add: get_metrics_def hist last_n_def)
  let ?st3 = "(put_tracker ?t' st)\<lparr>metrics_100 := Some (metric_fn [(pred_prob, label)])\<rparr>"
  have tr: "tracked_reward (tracker_ops_of metric_fn) label ax u pred_prob st =
      (case metric_fn [(pred_prob, label)] ''mcc'' of
         None \<Rightarrow> (Inl (KeyError ''mcc''), ?st3)
       | Some mcc \<Rightarrow>
          (case metric_fn [(pred_prob, label)] ''accuracy'' of
             None \<Rightarrow> (Inl (KeyError ''accuracy''), ?st3)
           | Some acc \<Rightarrow>
               (Inr (fmul (fadd (fmul (Finite 0.5) mcc) (fmul (Finite 0.5) acc))
                       (compute_penalty pred_prob)), ?st3)))"
    using assms(2-4)
    by (simp add: tracked_reward_def tracker_ops_of_def Let_def m100 m10 split: option.splits)
  have snd_eq: "snd (score_miner (tracker_ops_of metric_fn) label (ax, u, pred_prob) st) = ?st3"
    using assms(1) by (simp add: score_miner_def try_block_def tr split: option.splits)
  have fst_eq: "fst (fst (score_miner (tracker_ops_of metric_fn) label (ax, u, pred_prob) st))
           = (case metric_fn [(pred_prob, label)] ''mcc'' of
                None \<Rightarrow> Finite 0
              | Some mcc \<Rightarrow>
                 (case metric_fn [(pred_prob, label)] ''accuracy'' of
                    None \<Rightarrow> Finite 0
                  | Some acc \<Rightarrow>
                      fmul (fadd (fmul (Finite 0.5) mcc) (fmul (Finite 0.5) acc))
                        (compute_penalty pred_prob)))"
    using assms(1) by (simp add: score_miner_def try_block_def tr split: option.splits)
  have h1: "prediction_history ?t' u = Some [(pred_prob, label)]"
    by (simp add: update_def reset_miner_history_def history_of_def last_n_def)
  have h2: "miner_hotkeys ?t' u = Some (hotkey ax)"
    by (simp add: update_def)
  show ?thesis
    using snd_eq fst_eq h1 h2 by (simp add: put_tracker_def)
qed

theorem score_miner_hotkey_change_resets_witness:
  "prediction_history
     (the (performance_trackers
        (snd (score_miner (tracker_ops_of sample_metrics) (Finite 0)
                (\<lparr>hotkey = ''B''\<rparr>, 7, Finite 0.2)
          (snd (score_miner (tracker_ops_of sample_metrics) (Finite 1)
                  (\<lparr>hotkey = ''A''\<rparr>, 7, Finite 0.9)
             \<lparr>performance_trackers = [''image'' \<mapsto> empty_tracker], metrics_100 = None\<rparr>))))
        ''image'')) 7
   = Some [(Finite 0.2, Finite 0)]"
proof -
  let ?st1 = "snd (score_miner (tracker_ops_of sample_metrics) (Finite 1)
                  (\<lparr>hotkey = ''A''\<rparr>, 7, Finite 0.9)
             \<lparr>performance_trackers = [''image'' \<mapsto> empty_tracker], metrics_100 = None\<rparr>)"
  let ?t = "update 7 (Finite 0.9) (Finite 1) ''A'' empty_tracker"
  have a: "performance_trackers ?st1 ''image'' = Some ?t"
    by (simp add: reward_eval)
  have b: "miner_hotkeys ?t 7 = Some ''A''" by (simp add: update_def)
  have c: "''A'' \<noteq> hotkey \<lparr>hotkey = ''B''\<rparr>" by simp
  have d: "\<not> feq (Finite 0.2) (Finite (- 1))" by (simp add: feq_def)
  from score_miner_hotkey_change_resets [OF d a b c, of sample_metrics "Finite 0"]
  show ?thesis by simp
qed
section \<open>Content hasher and client wrapper: properties\<close>

text \<open>
  Claim C8.  The fingerprint is a function of the bytes alone (it takes no state and
  leaves none), and the client's hash function and the server's are the same function:
  for every byte sequence both give the hexadecimal form of its SHA-256 digest.
\<close>

theorem hash_image_bytes_client_server_agree:
  "client_hash_image_bytes sha img = hash_image_bytes sha img
   \<and> hash_image_bytes sha img = hexdigest (sha img)"
  by (simp add: client_hash_image_bytes_def hash_image_bytes_def)

lemma range_3: "[1..<nat (3 + 1)] = [1, 2, 3]"
  by code_simp

lemma range_first: "1 \<le> (m::int) \<Longrightarrow> [1..<nat (m + 1)] = 1 # [2..<nat (m + 1)]"
proof -
  assume "1 \<le> m"
  then have "1 < nat (m + 1)" by simp
  then have "[1..<nat (m + 1)] = 1 # [Suc 1..<nat (m + 1)]" by (rule upt_conv_Cons)
  moreover have "Suc 1 = 2" by simp
  ultimately show ?thesis by (simp only:)
qed

lemma predict_with_cache_miss:
  "c (client_hash_image_bytes sha img) = None \<Longrightarrow>
     predict_with_cache sha parse broker img t max_retries c
       = attempts (broker img t) (client_hash_image_bytes sha img) [1..<nat (max_retries + 1)] c"
  by (simp add: predict_with_cache_def Let_def)

text \<open>
  Claim C2.  Inside the retry loop a timeout uses up the current attempt and the loop
  goes on with the remaining ones, while any other transport failure ends the loop at
  once with the sentinel and no further POST.  In particular, with nothing cached, a
  broker that times out twice and then answers makes a call with \<open>max_retries = 3\<close>
  return the answer's probability after three attempts, and a broker whose first
  attempt fails with a transport error other than a timeout makes the call return the
  sentinel after exactly one attempt.
\<close>

theorem predict_with_cache_retry_policy:
  "(post a = Timeout \<longrightarrow>
      attempts post h (a # rest) c =
        (case attempts post h rest c of (r, n, c') \<Rightarrow> (r, Suc n, c')))
   \<and> (post a = RequestException e \<longrightarrow>
        attempts post h (a # rest) c = (Inr (JNum (Finite 0.999999999)), 1, c))
   \<and> (c (client_hash_image_bytes sha img) = None \<and> broker img t 1 = Timeout
        \<and> broker img t 2 = Timeout
        \<and> broker img t 3 = Json (JObj kv) \<and> map_of kv ''error'' = None
        \<and> map_of kv ''from_cache'' = Some (JBool served)
        \<and> map_of kv ''probability'' = Some (JNum p)
      \<longrightarrow> fst (predict_with_cache sha parse broker img t 3 c) = Inr (JNum p)
          \<and> fst (snd (predict_with_cache sha parse broker img t 3 c)) = 3)
   \<and> (c (client_hash_image_bytes sha img) = None \<and> 1 \<le> max_retries
        \<and> broker img t 1 = RequestException e
      \<longrightarrow> predict_with_cache sha parse broker img t max_retries c
            = (Inr (JNum (Finite 0.999999999)), 1, c))"
proof (intro conjI impI)
  assume "post a = Timeout"
  then show "attempts post h (a # rest) c =
        (case attempts post h rest c of (r, n, c') \<Rightarrow> (r, Suc n, c'))" by simp
next
  assume "post a = RequestException e"
  then show "attempts post h (a # rest) c = (Inr (JNum (Finite 0.999999999)), 1, c)" by simp
next
  assume a: "c (client_hash_image_bytes sha img) = None \<and> broker img t 1 = Timeout
        \<and> broker img t 2 = Timeout
        \<and> broker img t 3 = Json (JObj kv) \<and> map_of kv ''error'' = None
        \<and> map_of kv ''from_cache'' = Some (JBool served)
        \<and> map_of kv ''probability'' = Some (JNum p)"
  then have miss: "c (client_hash_image_bytes sha img) = None" by simp
  have eq: "predict_with_cache sha parse broker img t 3 c
      = attempts (broker img t) (client_hash_image_bytes sha img) [1, 2, 3] c"
    using predict_with_cache_miss [where c = c and sha = sha and img = img, OF miss,
        of parse broker t 3]
    by (simp only: range_3)
  from a show "fst (predict_with_cache sha parse broker img t 3 c) = Inr (JNum p)"
    unfolding eq by (simp add: truthy_def encode_def)
  from a show "fst (snd (predict_with_cache sha parse broker img t 3 c)) = 3"
    unfolding eq by (simp add: truthy_def encode_def)
next
  assume a: "c (client_hash_image_bytes sha img) = None \<and> 1 \<le> max_retries
        \<and> broker img t 1 = RequestException e"
  then have "[1..<nat (max_retries + 1)] = 1 # [2..<nat (max_retries + 1)]"
    using range_first by blast
  with a show "predict_with_cache sha parse broker img t max_retries c
        = (Inr (JNum (Finite 0.999999999)), 1, c)"
    by (simp add: predict_with_cache_miss)
qed

theorem predict_with_cache_retry_policy_witness:
  "fst (predict_with_cache sample_digest sample_parse slow_broker [1, 2] 3 3 Map.empty)
     = Inr (JNum (Finite (1 / 4)))
   \<and> fst (snd (predict_with_cache sample_digest sample_parse slow_broker [1, 2] 3 3 Map.empty))
     = 3
   \<and> predict_with_cache sample_digest sample_parse refusing_broker [1, 2] 3 3 Map.empty
     = (Inr (JNum (Finite 0.999999999)), 1, Map.empty)"
proof -
  let ?kv = "[(''from_cache'', JBool False), (''probability'', JNum (Finite (1 / 4)))]"
  have s: "slow_broker [1, 2] 3 1 = Timeout" "slow_broker [1, 2] 3 2 = Timeout"
    "slow_broker [1, 2] 3 3 = Json (JObj ?kv)"
    by (simp_all add: slow_broker_def)
  have k: "map_of ?kv ''error'' = None" "map_of ?kv ''from_cache'' = Some (JBool False)"
    "map_of ?kv ''probability'' = Some (JNum (Finite (1 / 4)))" by simp_all
  have r: "refusing_broker [1, 2] 3 1 = RequestException ''Connection refused''"
    by (simp add: refusing_broker_def)
  have miss: "Map.empty (client_hash_image_bytes sample_digest [1, 2]) = (None :: entry option)"
    by simp
  from predict_with_cache_retry_policy
    [where c = Map.empty and sha = sample_digest and img = "[1, 2]" and t = 3
       and broker = slow_broker and served = False and p = "Finite (1 / 4)" and kv = ?kv
       and parse = sample_parse]
    s k miss
  have a: "fst (predict_with_cache sample_digest sample_parse slow_broker [1, 2] 3 3 Map.empty)
        = Inr (JNum (Finite (1 / 4)))
      \<and> fst (snd (predict_with_cache sample_digest sample_parse slow_broker [1, 2] 3 3
            Map.empty)) = 3"
    by blast
  from predict_with_cache_retry_policy
    [where c = Map.empty and sha = sample_digest and img = "[1, 2]" and t = 3
       and broker = refusing_broker and max_retries = 3 and e = "''Connection refused''"
       and parse = sample_parse]
    r miss
  have "predict_with_cache sample_digest sample_parse refusing_broker [1, 2] 3 3 Map.empty
     = (Inr (JNum (Finite 0.999999999)), 1, Map.empty)" by simp
  with a show ?thesis by simp
qed

subsection \<open>When the wrapper raises nothing\<close>

lemma attempts_handled_isl:
  "\<forall>a\<in>set as. handled (post a) \<Longrightarrow> \<not> isl (fst (attempts post h as c))"
proof (induction as)
  case Nil
  then show ?case by simp
next
  case (Cons a as)
  then have ih: "\<not> isl (fst (attempts post h as c))" by simp
  from Cons.prems have hd: "handled (post a)" by simp
  show ?case
  proof (cases "post a")
    case Timeout
    with ih show ?thesis by (auto split: prod.splits)
  next
    case (RequestException e)
    then show ?thesis by simp
  next
    case (Raises e)
    with hd show ?thesis by (simp add: handled_def)
  next
    case (Json result)
    show ?thesis
    proof (cases result)
      case (JObj kv)
      with Json hd ih show ?thesis
        by (auto simp: handled_def is_number_def encode_def
                 split: prod.splits option.splits json.splits)
    qed (use Json hd in \<open>simp_all add: handled_def\<close>)
  qed
qed

lemma attempts_handled:
  assumes "\<forall>a\<in>set as. handled (post a)"
  shows "\<exists>v. fst (attempts post h as c) = Inr v"
  using attempts_handled_isl [OF assms, of h c]
  by (cases "fst (attempts post h as c)") auto

lemma attempts_all_fail:
  "\<forall>a\<in>set as. fails (post a) \<Longrightarrow>
     fst (attempts post h as c) = Inr (JNum (Finite 0.999999999))"
proof (induction as)
  case Nil
  then show ?case by simp
next
  case (Cons a as)
  then have ih: "fst (attempts post h as c) = Inr (JNum (Finite 0.999999999))" by simp
  from Cons.prems have f: "fails (post a)" by simp
  show ?case
  proof (cases "post a")
    case Timeout
    with ih show ?thesis by (auto split: prod.splits)
  next
    case (RequestException e)
    then show ?thesis by simp
  next
    case (Raises e)
    with f show ?thesis by (simp add: fails_def)
  next
    case (Json result)
    show ?thesis
    proof (cases result)
      case (JObj kv)
      with Json f ih show ?thesis
        by (auto simp: fails_def split: prod.splits)
    qed (use Json f in \<open>simp_all add: fails_def\<close>)
  qed
qed

lemma in_range_iff: "a \<in> set [1..<nat (m + 1)] \<longleftrightarrow> 1 \<le> a \<and> int a \<le> m"
  by auto

text \<open>
  Claim C4, as amended.  The call raises nothing, provided that what the local cache
  holds under the fingerprint, if not empty, converts to a float, and that every
  attempt up to \<open>max_retries\<close> ends in a timeout, in another request exception, or in
  a decoded JSON object that has an \<open>"error"\<close> key or else has \<open>"from_cache"\<close> and
  \<open>"probability"\<close>, the probability being a number whenever \<open>"from_cache"\<close> is
  false.  And when the local cache holds nothing (or only empty
  bytes) under the fingerprint and every attempt up to \<open>max_retries\<close> ends in a
  timeout, in another request exception or in an object with an \<open>"error"\<close> key, the
  call returns the sentinel 0.999999999.
\<close>

theorem predict_with_cache_returns_when_handled:
  "(readable parse c (client_hash_image_bytes sha img)
      \<and> (\<forall>a. 1 \<le> a \<and> int a \<le> max_retries \<longrightarrow> handled (broker img t a)) \<longrightarrow>
      (\<exists>v. fst (predict_with_cache sha parse broker img t max_retries c) = Inr v))
   \<and> (misses c (client_hash_image_bytes sha img)
        \<and> (\<forall>a. 1 \<le> a \<and> int a \<le> max_retries \<longrightarrow> fails (broker img t a))
      \<longrightarrow> fst (predict_with_cache sha parse broker img t max_retries c)
            = Inr (JNum (Finite 0.999999999)))"
proof (intro conjI impI)
  let ?h = "client_hash_image_bytes sha img"
  assume a: "readable parse c ?h
      \<and> (\<forall>a. 1 \<le> a \<and> int a \<le> max_retries \<longrightarrow> handled (broker img t a))"
  then have "\<forall>a\<in>set [1..<nat (max_retries + 1)]. handled (broker img t a)"
    unfolding Ball_def in_range_iff by blast
  from attempts_handled [OF this]
  have loop: "\<exists>v. fst (attempts (broker img t) ?h [1..<nat (max_retries + 1)] c) = Inr v" .
  show "\<exists>v. fst (predict_with_cache sha parse broker img t max_retries c) = Inr v"
  proof (cases "c ?h")
    case None
    with loop show ?thesis by (simp add: predict_with_cache_def Let_def)
  next
    case (Some cached)
    show ?thesis
    proof (cases "nonempty cached")
      case False
      with Some loop show ?thesis by (simp add: predict_with_cache_def Let_def)
    next
      case True
      with a Some have "\<not> isl (to_float parse cached)" by (simp add: readable_def)
      then obtain x where "to_float parse cached = Inr x"
        by (cases "to_float parse cached") auto
      with Some True show ?thesis by (simp add: predict_with_cache_def Let_def)
    qed
  qed
next
  let ?h = "client_hash_image_bytes sha img"
  assume a: "misses c ?h
      \<and> (\<forall>a. 1 \<le> a \<and> int a \<le> max_retries \<longrightarrow> fails (broker img t a))"
  then have "\<forall>a\<in>set [1..<nat (max_retries + 1)]. fails (broker img t a)"
    unfolding Ball_def in_range_iff by blast
  from attempts_all_fail [OF this]
  have loop: "fst (attempts (broker img t) ?h [1..<nat (max_retries + 1)] c)
                = Inr (JNum (Finite 0.999999999))" .
  from a have "c ?h = None \<or> (\<exists>cached. c ?h = Some cached \<and> \<not> nonempty cached)"
    by (auto simp: misses_def split: option.splits)
  with loop show "fst (predict_with_cache sha parse broker img t max_retries c)
            = Inr (JNum (Finite 0.999999999))"
    by (auto simp: predict_with_cache_def Let_def)
qed

theorem predict_with_cache_returns_when_handled_witness:
  "readable sample_parse Map.empty (client_hash_image_bytes sample_digest [1, 2])
   \<and> misses Map.empty (client_hash_image_bytes sample_digest [1, 2])
   \<and> (\<forall>a. handled (slow_broker [1, 2] 3 a))
   \<and> (\<exists>v. fst (predict_with_cache sample_digest sample_parse slow_broker [1, 2] 3 2 Map.empty)
            = Inr v)
   \<and> fst (predict_with_cache sample_digest sample_parse slow_broker [1, 2] 3 2 Map.empty)
       = Inr (JNum (Finite 0.999999999))"
proof -
  have rd: "readable sample_parse Map.empty (client_hash_image_bytes sample_digest [1, 2])"
    by (simp add: readable_def)
  have ms: "misses Map.empty (client_hash_image_bytes sample_digest [1, 2])"
    by (simp add: misses_def)
  have hd: "\<forall>a. handled (slow_broker [1, 2] 3 a)"
    by (simp add: handled_def slow_broker_def truthy_def is_number_def)
  have fl: "\<forall>a. 1 \<le> a \<and> int a \<le> 2 \<longrightarrow> fails (slow_broker [1, 2] 3 a)"
    by (simp add: fails_def slow_broker_def)
  from predict_with_cache_returns_when_handled
    [where broker = slow_broker and img = "[1, 2]" and t = 3 and sha = sample_digest
       and max_retries = 2 and c = Map.empty and parse = sample_parse] rd ms hd fl
  show ?thesis by blast
qed

text \<open>
  The claim as first stated, for every input, fails: only timeouts and other request
  exceptions are caught.  An answered body without the \<open>"from_cache"\<close> key
  propagates a \<open>KeyError\<close> to the caller, a null probability to be cached propagates
  the store library's \<open>DataError\<close>, and cached text that is no float literal
  propagates a \<open>ValueError\<close>.
\<close>

theorem predict_with_cache_raises_counterexample:
  "fst (predict_with_cache sample_digest sample_parse careless_broker [1, 2] 3 3 Map.empty)
     = Inl (KeyError ''from_cache'')
   \<and> fst (predict_with_cache sample_digest sample_parse null_broker [1, 2] 3 3 Map.empty)
     = Inl (DataError ''Invalid input type'')
   \<and> fst (predict_with_cache sample_digest sample_parse slow_broker [1, 2] 3 3
          [client_hash_image_bytes sample_digest [1, 2] \<mapsto> Text ''n/a''])
     = Inl (ValueError ''could not convert string to float'')"
proof -
  have miss: "Map.empty (client_hash_image_bytes sample_digest [1, 2]) = (None :: entry option)"
    by simp
  have eq: "predict_with_cache sample_digest sample_parse broker [1, 2] 3 3 Map.empty
      = attempts (broker [1, 2] 3) (client_hash_image_bytes sample_digest [1, 2]) [1, 2, 3]
          Map.empty" for broker
    using predict_with_cache_miss [where c = Map.empty and sha = sample_digest
        and img = "[1, 2]", OF miss, of sample_parse broker 3 3]
    by (simp only: range_3)
  have "fst (predict_with_cache sample_digest sample_parse careless_broker [1, 2] 3 3 Map.empty)
     = Inl (KeyError ''from_cache'')"
    unfolding eq by (simp add: careless_broker_def)
  moreover have
    "fst (predict_with_cache sample_digest sample_parse null_broker [1, 2] 3 3 Map.empty)
     = Inl (DataError ''Invalid input type'')"
    unfolding eq by (simp add: null_broker_def truthy_def encode_def)
  moreover have "fst (predict_with_cache sample_digest sample_parse slow_broker [1, 2] 3 3
          [client_hash_image_bytes sample_digest [1, 2] \<mapsto> Text ''n/a''])
     = Inl (ValueError ''could not convert string to float'')"
    by (simp add: predict_with_cache_def Let_def nonempty_def to_float_def sample_parse_def)
  ultimately show ?thesis by simp
qed
section \<open>Inference broker: properties\<close>

lemmas server_eval = start_def step_def predict_submit_def inference_worker_def
  predict_resume_def Let_def sample_inference_def

subsection \<open>The invariant holds in every state the server reaches\<close>

lemma consistent_queue:
  "consistent sha s \<Longrightarrow> j \<in> set (job_queue s) \<Longrightarrow> j < length (jobs s)"
  unfolding consistent_def by blast

lemma consistent_waiting:
  "consistent sha s \<Longrightarrow> j \<in> set (waiting s) \<Longrightarrow> j < length (jobs s)"
  unfolding consistent_def by blast

lemma consistent_hash:
  "consistent sha s \<Longrightarrow> j < length (jobs s) \<Longrightarrow>
     image_hash (jobs s ! j) = hash_image_bytes sha (image_bytes (jobs s ! j))"
  unfolding consistent_def by blast

lemma consistent_set:
  "consistent sha s \<Longrightarrow> j < length (jobs s) \<Longrightarrow> result_event (jobs s ! j) \<Longrightarrow>
     \<exists>p. result (jobs s ! j) = Some p \<and> rdb s (image_hash (jobs s ! j)) = Some p"
  unfolding consistent_def by (metis (full_types))

lemma consistent_unset:
  "consistent sha s \<Longrightarrow> j < length (jobs s) \<Longrightarrow> \<not> result_event (jobs s ! j) \<Longrightarrow>
     worker_alive s \<Longrightarrow> j \<in> set (job_queue s)"
  unfolding consistent_def by (metis (full_types))

lemma consistentI:
  assumes "\<And>j. j \<in> set (job_queue s) \<Longrightarrow> j < length (jobs s)"
    and "\<And>j. j \<in> set (waiting s) \<Longrightarrow> j < length (jobs s)"
    and "\<And>j. j < length (jobs s) \<Longrightarrow>
           image_hash (jobs s ! j) = hash_image_bytes sha (image_bytes (jobs s ! j))"
    and "\<And>j. j < length (jobs s) \<Longrightarrow> result_event (jobs s ! j) \<Longrightarrow>
           \<exists>p. result (jobs s ! j) = Some p \<and> rdb s (image_hash (jobs s ! j)) = Some p"
    and "\<And>j. j < length (jobs s) \<Longrightarrow> \<not> result_event (jobs s ! j) \<Longrightarrow>
           worker_alive s \<Longrightarrow> j \<in> set (job_queue s)"
  shows "consistent sha s"
  unfolding consistent_def using assms by simp

lemma consistent_start: "consistent sha (start store)"
  by (simp add: consistent_def start_def)

lemma consistent_submit:
  assumes "consistent sha s"
  shows "consistent sha (snd (predict_submit sha img s))"
proof (cases "rdb s (hash_image_bytes sha img)")
  case (Some p)
  with assms show ?thesis by (simp add: predict_submit_def)
next
  case None
  let ?j = "length (jobs s)"
  let ?jb = "\<lparr>image_hash = hash_image_bytes sha img, image_bytes = img,
              result_event = False, result = None\<rparr>"
  let ?s' = "s\<lparr>jobs := jobs s @ [?jb], job_queue := job_queue s @ [?j],
                waiting := waiting s @ [?j]\<rparr>"
  have eq: "snd (predict_submit sha img s) = ?s'"
    using None by (simp add: predict_submit_def Let_def)
  have old: "\<And>j. j < length (jobs s) \<Longrightarrow> jobs ?s' ! j = jobs s ! j"
    by (simp add: nth_append)
  have new: "jobs ?s' ! ?j = ?jb" by simp
  have split: "\<And>j. j < length (jobs ?s') \<Longrightarrow> j < length (jobs s) \<or> j = ?j" by auto
  have "consistent sha ?s'"
  proof (rule consistentI)
    fix j assume "j \<in> set (job_queue ?s')"
    with assms show "j < length (jobs ?s')" by (auto dest: consistent_queue)
  next
    fix j assume "j \<in> set (waiting ?s')"
    with assms show "j < length (jobs ?s')" by (auto dest: consistent_waiting)
  next
    fix j assume "j < length (jobs ?s')"
    with split have "j < length (jobs s) \<or> j = ?j" by blast
    then show "image_hash (jobs ?s' ! j) = hash_image_bytes sha (image_bytes (jobs ?s' ! j))"
    proof
      assume j: "j < length (jobs s)"
      with assms old show ?thesis by (simp add: consistent_hash)
    next
      assume "j = ?j"
      then show ?thesis by simp
    qed
  next
    fix j assume "j < length (jobs ?s')" and e: "result_event (jobs ?s' ! j)"
    with split have "j < length (jobs s) \<or> j = ?j" by blast
    then show "\<exists>p. result (jobs ?s' ! j) = Some p \<and> rdb ?s' (image_hash (jobs ?s' ! j)) = Some p"
    proof
      assume j: "j < length (jobs s)"
      with e old have "result_event (jobs s ! j)" by simp
      from consistent_set [OF assms j this] old [OF j] show ?thesis by simp
    next
      assume "j = ?j"
      with e show ?thesis by simp
    qed
  next
    fix j assume "j < length (jobs ?s')" and e: "\<not> result_event (jobs ?s' ! j)"
      and alive: "worker_alive ?s'"
    with split have "j < length (jobs s) \<or> j = ?j" by blast
    then show "j \<in> set (job_queue ?s')"
    proof
      assume j: "j < length (jobs s)"
      with e old have "\<not> result_event (jobs s ! j)" by simp
      from consistent_unset [OF assms j this] alive show ?thesis by simp
    next
      assume "j = ?j"
      then show ?thesis by simp
    qed
  qed
  with eq show ?thesis by simp
qed

lemma worker_stopped: "\<not> worker_alive s \<Longrightarrow> inference_worker infer s = s"
  by (simp add: inference_worker_def)

lemma worker_idle: "job_queue s = [] \<Longrightarrow> inference_worker infer s = s"
  by (simp add: inference_worker_def)

lemma worker_crashes:
  assumes "worker_alive s" and "job_queue s = j0 # rest"
    and "rdb s (image_hash (jobs s ! j0)) = None"
    and "infer (image_bytes (jobs s ! j0)) = Inl e"
  shows "inference_worker infer s =
           s\<lparr>job_queue := rest,
             inference_calls := inference_calls s @ [image_bytes (jobs s ! j0)],
             worker_alive := False\<rparr>"
  using assms by (simp add: inference_worker_def Let_def)

text \<open>What the worker leaves when it serves the job at the head of the queue.\<close>

lemma worker_serves:
  assumes "worker_alive s" and "job_queue s = j0 # rest"
    and "rdb s (image_hash (jobs s ! j0)) = Some v
         \<or> (rdb s (image_hash (jobs s ! j0)) = None \<and> infer (image_bytes (jobs s ! j0)) = Inr v)"
  shows "jobs (inference_worker infer s)
           = (jobs s)[j0 := (jobs s ! j0)\<lparr>result := Some v, result_event := True\<rparr>]"
    and "job_queue (inference_worker infer s) = rest"
    and "waiting (inference_worker infer s) = waiting s"
    and "worker_alive (inference_worker infer s)"
    and "rdb (inference_worker infer s) (image_hash (jobs s ! j0)) = Some v"
    and "\<And>h p. rdb s h = Some p \<Longrightarrow> rdb (inference_worker infer s) h = Some p"
  using assms by (auto simp: inference_worker_def Let_def)

lemma consistent_worker:
  assumes "consistent sha s"
  shows "consistent sha (inference_worker infer s)"
proof (cases "worker_alive s")
  case False
  with assms show ?thesis by (simp add: worker_stopped)
next
  case alive: True
  show ?thesis
  proof (cases "job_queue s")
    case Nil
    with assms show ?thesis by (simp add: worker_idle)
  next
    case (Cons j0 rest)
    from assms Cons have j0: "j0 < length (jobs s)" by (auto dest: consistent_queue)
    let ?jb = "jobs s ! j0"
    let ?s' = "inference_worker infer s"
    consider (crash) e where "rdb s (image_hash ?jb) = None" "infer (image_bytes ?jb) = Inl e"
      | (serve) v where "rdb s (image_hash ?jb) = Some v
           \<or> (rdb s (image_hash ?jb) = None \<and> infer (image_bytes ?jb) = Inr v)"
      by (cases "rdb s (image_hash ?jb)"; cases "infer (image_bytes ?jb)") auto
    then show ?thesis
    proof cases
      case crash
      note eq = worker_crashes [where infer = infer, OF alive Cons crash]
      show ?thesis
      proof (rule consistentI)
        fix j assume "j \<in> set (job_queue ?s')"
        with assms Cons eq show "j < length (jobs ?s')" by (auto dest: consistent_queue)
      next
        fix j assume "j \<in> set (waiting ?s')"
        with assms eq show "j < length (jobs ?s')" by (auto dest: consistent_waiting)
      next
        fix j assume "j < length (jobs ?s')"
        with assms eq
        show "image_hash (jobs ?s' ! j) = hash_image_bytes sha (image_bytes (jobs ?s' ! j))"
          by (simp add: consistent_hash)
      next
        fix j assume "j < length (jobs ?s')" and "result_event (jobs ?s' ! j)"
        with eq have "j < length (jobs s)" and "result_event (jobs s ! j)" by simp_all
        from consistent_set [OF assms this] eq
        show "\<exists>p. result (jobs ?s' ! j) = Some p \<and> rdb ?s' (image_hash (jobs ?s' ! j)) = Some p"
          by simp
      next
        fix j assume "worker_alive ?s'"
        with eq show "j \<in> set (job_queue ?s')" by simp
      qed
    next
      case serve
      note w = worker_serves [where infer = infer, OF alive Cons serve]
      let ?jb' = "?jb\<lparr>result := Some v, result_event := True\<rparr>"
      have len: "length (jobs ?s') = length (jobs s)" by (simp add: w(1))
      have at_j0: "jobs ?s' ! j0 = ?jb'" using j0 by (simp add: w(1))
      have other: "\<And>j. j \<noteq> j0 \<Longrightarrow> jobs ?s' ! j = jobs s ! j" by (simp add: w(1))
      show ?thesis
      proof (rule consistentI)
        fix j assume "j \<in> set (job_queue ?s')"
        with assms Cons w(2) len show "j < length (jobs ?s')" by (auto dest: consistent_queue)
      next
        fix j assume "j \<in> set (waiting ?s')"
        with assms w(3) len show "j < length (jobs ?s')" by (auto dest: consistent_waiting)
      next
        fix j assume "j < length (jobs ?s')"
        with len have j: "j < length (jobs s)" by simp
        from consistent_hash [OF assms j] at_j0 other [of j]
        show "image_hash (jobs ?s' ! j) = hash_image_bytes sha (image_bytes (jobs ?s' ! j))"
          by (cases "j = j0") simp_all
      next
        fix j assume "j < length (jobs ?s')" and e: "result_event (jobs ?s' ! j)"
        with len have j: "j < length (jobs s)" by simp
        show "\<exists>p. result (jobs ?s' ! j) = Some p \<and> rdb ?s' (image_hash (jobs ?s' ! j)) = Some p"
        proof (cases "j = j0")
          case True
          with at_j0 w(5) show ?thesis by simp
        next
          case False
          with e other have "result_event (jobs s ! j)" by simp
          from consistent_set [OF assms j this] obtain p where
            "result (jobs s ! j) = Some p" "rdb s (image_hash (jobs s ! j)) = Some p" by blast
          with w(6) other [OF False] show ?thesis by simp
        qed
      next
        fix j assume "j < length (jobs ?s')" and e: "\<not> result_event (jobs ?s' ! j)"
        with len have j: "j < length (jobs s)" by simp
        from e at_j0 have neq: "j \<noteq> j0" by auto
        with e other have "\<not> result_event (jobs s ! j)" by simp
        from consistent_unset [OF assms j this alive] Cons neq w(2)
        show "j \<in> set (job_queue ?s')" by simp
      qed
    qed
  qed
qed

lemma consistent_resume:
  assumes "consistent sha s"
  shows "consistent sha (snd (predict_resume j s))"
proof -
  let ?s' = "s\<lparr>waiting := removeAll j (waiting s)\<rparr>"
  have "snd (predict_resume j s) = ?s'"
    by (simp add: predict_resume_def Let_def split: option.splits)
  moreover have "consistent sha ?s'"
  proof (rule consistentI)
    fix k assume "k \<in> set (job_queue ?s')"
    with assms show "k < length (jobs ?s')" by (auto dest: consistent_queue)
  next
    fix k assume "k \<in> set (waiting ?s')"
    with assms show "k < length (jobs ?s')" by (auto dest: consistent_waiting)
  next
    fix k assume "k < length (jobs ?s')"
    with assms
    show "image_hash (jobs ?s' ! k) = hash_image_bytes sha (image_bytes (jobs ?s' ! k))"
      by (simp add: consistent_hash)
  next
    fix k assume "k < length (jobs ?s')" and "result_event (jobs ?s' ! k)"
    then have "k < length (jobs s)" and "result_event (jobs s ! k)" by simp_all
    from consistent_set [OF assms this]
    show "\<exists>p. result (jobs ?s' ! k) = Some p \<and> rdb ?s' (image_hash (jobs ?s' ! k)) = Some p"
      by simp
  next
    fix k assume "k < length (jobs ?s')" and "\<not> result_event (jobs ?s' ! k)"
      and "worker_alive ?s'"
    then have "k < length (jobs s)" and "\<not> result_event (jobs s ! k)" and "worker_alive s"
      by simp_all
    from consistent_unset [OF assms this] show "k \<in> set (job_queue ?s')" by simp
  qed
  ultimately show ?thesis by simp
qed

lemma consistent_step:
  assumes "consistent sha s"
  shows "consistent sha (snd (step sha infer ev s))"
proof (cases ev)
  case (Request img)
  with consistent_submit [OF assms, of img] show ?thesis
    by (auto simp: step_def split: prod.splits sum.splits)
next
  case Worker
  with consistent_worker [OF assms] show ?thesis by (simp add: step_def)
next
  case (WaitReturns j)
  with consistent_resume [OF assms, of j] assms show ?thesis
    by (auto simp: step_def split: prod.splits)
qed

lemma consistent_run:
  "consistent sha s \<Longrightarrow> consistent sha (run sha infer evs s)"
  by (induction evs arbitrary: s) (simp_all add: consistent_step)

lemma rdb_step:
  assumes "rdb s h = Some p"
  shows "rdb (snd (step sha infer ev s)) h = Some p"
proof (cases ev)
  case (Request img)
  with assms show ?thesis
    by (auto simp: step_def predict_submit_def Let_def split: option.splits)
next
  case Worker
  with assms show ?thesis
    by (auto simp: step_def inference_worker_def Let_def
             split: option.splits list.splits sum.splits)
next
  case (WaitReturns j)
  with assms show ?thesis
    by (auto simp: step_def predict_resume_def Let_def split: option.splits)
qed

lemma rdb_run:
  "rdb s h = Some p \<Longrightarrow> rdb (run sha infer evs s) h = Some p"
  by (induction evs arbitrary: s) (simp_all add: rdb_step)

subsection \<open>Cache hits and answers from the queue path\<close>

lemma step_request_hit:
  "rdb s (hash_image_bytes sha img) = Some p \<Longrightarrow>
     step sha infer (Request img) s = (Some (Reply True p), s)"
  by (simp add: step_def predict_submit_def Let_def)

lemma resume_fired:
  assumes "consistent sha s" and "j \<in> set (waiting s)" and "result_event (jobs s ! j)"
  shows "\<exists>p. step sha infer (WaitReturns j) s
              = (Some (Reply False p), s\<lparr>waiting := removeAll j (waiting s)\<rparr>)
            \<and> rdb s (hash_image_bytes sha (image_bytes (jobs s ! j))) = Some p"
proof -
  from assms(1,2) have j: "j < length (jobs s)" by (rule consistent_waiting)
  from consistent_set [OF assms(1) j assms(3)] obtain p where
    p: "result (jobs s ! j) = Some p" "rdb s (image_hash (jobs s ! j)) = Some p" by auto
  from consistent_hash [OF assms(1) j] p(2)
  have "rdb s (hash_image_bytes sha (image_bytes (jobs s ! j))) = Some p" by simp
  moreover have "step sha infer (WaitReturns j) s
              = (Some (Reply False p), s\<lparr>waiting := removeAll j (waiting s)\<rparr>)"
    using assms(2,3) p(1) by (simp add: step_def predict_resume_def Let_def)
  ultimately show ?thesis by blast
qed

text \<open>
  Claim C7.  A submission whose fingerprint is in the cache store at the initial lookup
  is answered at once with \<open>from_cache\<close> true and the cached probability, and the
  server's state is left as it was: no job is made, nothing is queued, no inference
  runs.  In particular, once a first submission of some bytes has been answered from the
  queue path with probability \<open>q\<close>, any later submission of the same bytes, whatever
  happens in between, is answered with \<open>from_cache\<close> true and the same \<open>q\<close>.
\<close>

theorem cache_hit_answers_at_once:
  "(rdb s (hash_image_bytes sha img) = Some p \<longrightarrow>
      predict_submit sha img s = (Inl (Reply True p), s)
      \<and> step sha infer (Request img) s = (Some (Reply True p), s))
   \<and> (fst (step sha infer (WaitReturns j) (run sha infer evs (start store)))
         = Some (Reply False q) \<longrightarrow>
       fst (step sha infer
              (Request (image_bytes (jobs (run sha infer evs (start store)) ! j)))
              (run sha infer later
                 (snd (step sha infer (WaitReturns j) (run sha infer evs (start store))))))
         = Some (Reply True q))"
proof (intro conjI impI)
  assume "rdb s (hash_image_bytes sha img) = Some p"
  then show "predict_submit sha img s = (Inl (Reply True p), s)"
    by (simp add: predict_submit_def Let_def)
next
  assume "rdb s (hash_image_bytes sha img) = Some p"
  then show "step sha infer (Request img) s = (Some (Reply True p), s)"
    by (rule step_request_hit)
next
  let ?s = "run sha infer evs (start store)"
  let ?s' = "snd (step sha infer (WaitReturns j) ?s)"
  assume a: "fst (step sha infer (WaitReturns j) ?s) = Some (Reply False q)"
  have c: "consistent sha ?s" by (simp add: consistent_run consistent_start)
  from a have w: "j \<in> set (waiting ?s)"
    by (auto simp: step_def split: if_splits)
  from a w have ev: "result_event (jobs ?s ! j)"
    by (auto simp: step_def predict_resume_def Let_def split: if_splits option.splits)
  from resume_fired [OF c w ev, of infer] a
  have "rdb ?s (hash_image_bytes sha (image_bytes (jobs ?s ! j))) = Some q" by auto
  then have "rdb ?s' (hash_image_bytes sha (image_bytes (jobs ?s ! j))) = Some q"
    by (rule rdb_step)
  then have "rdb (run sha infer later ?s') (hash_image_bytes sha (image_bytes (jobs ?s ! j)))
               = Some q"
    by (rule rdb_run)
  then show "fst (step sha infer (Request (image_bytes (jobs ?s ! j)))
               (run sha infer later ?s')) = Some (Reply True q)"
    by (simp add: step_request_hit)
qed

theorem cache_hit_answers_at_once_witness:
  "step sample_digest sample_inference (Request [1, 2])
      (run sample_digest sample_inference [Request [1, 2], Worker] (start Map.empty))
     = (Some (Reply True (1 / 3)),
        run sample_digest sample_inference [Request [1, 2], Worker] (start Map.empty))
   \<and> fst (step sample_digest sample_inference (WaitReturns 0)
          (run sample_digest sample_inference [Request [1, 2], Worker] (start Map.empty)))
     = Some (Reply False (1 / 3))
   \<and> fst (step sample_digest sample_inference (Request [1, 2])
          (run sample_digest sample_inference [Request [3]]
            (snd (step sample_digest sample_inference (WaitReturns 0)
              (run sample_digest sample_inference [Request [1, 2], Worker] (start Map.empty))))))
     = Some (Reply True (1 / 3))"
proof -
  let ?s = "run sample_digest sample_inference [Request [1, 2], Worker] (start Map.empty)"
  have h: "rdb ?s (hash_image_bytes sample_digest [1, 2]) = Some (1 / 3)"
    by (simp add: server_eval)
  have f: "fst (step sample_digest sample_inference (WaitReturns 0) ?s)
     = Some (Reply False (1 / 3))" by (simp add: server_eval)
  have b: "image_bytes (jobs ?s ! 0) = [1, 2]" by (simp add: server_eval)
  from cache_hit_answers_at_once
    [of ?s sample_digest "[1, 2]" "1 / 3" sample_inference 0 "[Request [1, 2], Worker]"
        Map.empty "1 / 3" "[Request [3]]"]
    h f b
  show ?thesis by simp
qed

text \<open>
  Claim C9.  An answer sent when a wait returns never says \<open>from_cache\<close> true.  In
  every state the server reaches, a waiting handler whose job's event is set answers
  \<open>from_cache\<close> false with a probability; this includes the job for which the
  worker's second look at the cache store found an entry, so that no inference was run
  for it.  A client whose first attempt receives such an answer returns its probability
  and writes it into its local cache under the image's fingerprint.
\<close>

theorem queue_path_reports_fresh:
  "fst (step sha infer (WaitReturns j) s) \<noteq> Some (Reply True q)
   \<and> (j \<in> set (waiting (run sha infer evs (start store)))
        \<and> result_event (jobs (run sha infer evs (start store)) ! j) \<longrightarrow>
      (\<exists>p. fst (step sha infer (WaitReturns j) (run sha infer evs (start store)))
              = Some (Reply False p)))
   \<and> (worker_alive (run sha infer evs (start store))
        \<and> job_queue (run sha infer evs (start store)) = j # rest
        \<and> j \<in> set (waiting (run sha infer evs (start store)))
        \<and> rdb (run sha infer evs (start store))
             (image_hash (jobs (run sha infer evs (start store)) ! j)) = Some v \<longrightarrow>
      inference_calls (inference_worker infer (run sha infer evs (start store)))
        = inference_calls (run sha infer evs (start store))
      \<and> fst (step sha infer (WaitReturns j)
               (inference_worker infer (run sha infer evs (start store))))
        = Some (Reply False v))
   \<and> (c (client_hash_image_bytes sha img) = None \<and> 1 \<le> max_retries
        \<and> broker img t 1 = http_outcome (Reply False p) \<longrightarrow>
      predict_with_cache sha parse broker img t max_retries c
        = (Inr (JNum (Finite p)), 1, c(client_hash_image_bytes sha img \<mapsto> Num (Finite p))))"
proof (intro conjI impI)
  show "fst (step sha infer (WaitReturns j) s) \<noteq> Some (Reply True q)"
    by (simp add: step_def predict_resume_def Let_def split: option.splits)
next
  let ?s = "run sha infer evs (start store)"
  assume a: "j \<in> set (waiting ?s) \<and> result_event (jobs ?s ! j)"
  have c: "consistent sha ?s" by (simp add: consistent_run consistent_start)
  from a resume_fired [OF c, of j infer]
  show "\<exists>p. fst (step sha infer (WaitReturns j) ?s) = Some (Reply False p)" by auto
next
  let ?s = "run sha infer evs (start store)"
  assume a: "worker_alive ?s \<and> job_queue ?s = j # rest \<and> j \<in> set (waiting ?s)
        \<and> rdb ?s (image_hash (jobs ?s ! j)) = Some v"
  then show "inference_calls (inference_worker infer ?s) = inference_calls ?s"
    by (simp add: inference_worker_def Let_def)
  have c: "consistent sha ?s" by (simp add: consistent_run consistent_start)
  from a c have j: "j < length (jobs ?s)" by (auto dest: consistent_waiting)
  from a j have "result (jobs (inference_worker infer ?s) ! j) = Some v"
    and "result_event (jobs (inference_worker infer ?s) ! j)"
    and "j \<in> set (waiting (inference_worker infer ?s))"
    by (simp_all add: inference_worker_def Let_def)
  then show "fst (step sha infer (WaitReturns j) (inference_worker infer ?s))
        = Some (Reply False v)"
    by (simp add: step_def predict_resume_def Let_def)
next
  assume a: "c (client_hash_image_bytes sha img) = None \<and> 1 \<le> max_retries
        \<and> broker img t 1 = http_outcome (Reply False p)"
  then have "[1..<nat (max_retries + 1)] = 1 # [2..<nat (max_retries + 1)]"
    using range_first by blast
  with a show "predict_with_cache sha parse broker img t max_retries c
        = (Inr (JNum (Finite p)), 1, c(client_hash_image_bytes sha img \<mapsto> Num (Finite p)))"
    by (simp add: predict_with_cache_miss http_outcome_def truthy_def encode_def)
qed

theorem queue_path_reports_fresh_witness:
  "job_queue (run sample_digest sample_inference [Request [1, 2], Request [1, 2], Worker]
       (start Map.empty)) = [1]
   \<and> rdb (run sample_digest sample_inference [Request [1, 2], Request [1, 2], Worker]
       (start Map.empty))
       (image_hash (jobs (run sample_digest sample_inference
          [Request [1, 2], Request [1, 2], Worker] (start Map.empty)) ! 1)) = Some (1 / 3)
   \<and> inference_calls (run sample_digest sample_inference
          [Request [1, 2], Request [1, 2], Worker, Worker] (start Map.empty)) = [[1, 2]]
   \<and> fst (step sample_digest sample_inference (WaitReturns 1)
          (run sample_digest sample_inference [Request [1, 2], Request [1, 2], Worker, Worker]
             (start Map.empty)))
     = Some (Reply False (1 / 3))
   \<and> (\<exists>p. fst (step sample_digest sample_inference (WaitReturns 0)
          (run sample_digest sample_inference [Request [1, 2], Request [1, 2], Worker]
             (start Map.empty)))
     = Some (Reply False p))
   \<and> predict_with_cache sample_digest sample_parse (relaying (Reply False (1 / 3)))
        [1, 2] 3 3 Map.empty
     = (Inr (JNum (Finite (1 / 3))), 1,
        [client_hash_image_bytes sample_digest [1, 2] \<mapsto> Num (Finite (1 / 3))])"
proof -
  let ?evs = "[Request [1, 2], Request [1, 2], Worker]"
  let ?s = "run sample_digest sample_inference ?evs (start Map.empty)"
  have q: "job_queue ?s = [1]" by (simp add: server_eval)
  have alive: "worker_alive ?s" by (simp add: server_eval)
  have w1: "1 \<in> set (waiting ?s)" by (simp add: server_eval)
  have w0: "0 \<in> set (waiting ?s)" by (simp add: server_eval)
  have e0: "result_event (jobs ?s ! 0)" by (simp add: server_eval)
  have h: "rdb ?s (image_hash (jobs ?s ! 1)) = Some (1 / 3)" by (simp add: server_eval)
  have calls: "inference_calls ?s = [[1, 2]]" by (simp add: server_eval)
  have next_run: "run sample_digest sample_inference
          [Request [1, 2], Request [1, 2], Worker, Worker] (start Map.empty)
        = inference_worker sample_inference ?s" by (simp add: step_def)
  have miss: "Map.empty (client_hash_image_bytes sample_digest [1, 2]) = (None :: entry option)"
    by simp
  have b: "relaying (Reply False (1 / 3)) [1, 2] 3 1 = http_outcome (Reply False (1 / 3))"
    by (simp add: relaying_def)
  from queue_path_reports_fresh
    [where sha = sample_digest and infer = sample_inference and evs = ?evs
       and store = Map.empty and j = 1 and rest = "[]" and v = "1 / 3"
       and c = Map.empty and img = "[1, 2]" and max_retries = 3 and t = 3 and p = "1 / 3"
       and broker = "relaying (Reply False (1 / 3))" and parse = sample_parse]
    q w1 h miss b calls next_run alive
  have a: "inference_calls (run sample_digest sample_inference
          [Request [1, 2], Request [1, 2], Worker, Worker] (start Map.empty)) = [[1, 2]]
     \<and> fst (step sample_digest sample_inference (WaitReturns 1)
          (run sample_digest sample_inference [Request [1, 2], Request [1, 2], Worker, Worker]
             (start Map.empty))) = Some (Reply False (1 / 3))
     \<and> predict_with_cache sample_digest sample_parse (relaying (Reply False (1 / 3)))
          [1, 2] 3 3 Map.empty
     = (Inr (JNum (Finite (1 / 3))), 1,
        [client_hash_image_bytes sample_digest [1, 2] \<mapsto> Num (Finite (1 / 3))])"
    by simp
  from queue_path_reports_fresh
    [where sha = sample_digest and infer = sample_inference and evs = ?evs
       and store = Map.empty and j = 0]
    w0 e0
  have "\<exists>p. fst (step sample_digest sample_inference (WaitReturns 0) ?s) = Some (Reply False p)"
    by blast
  with a q h show ?thesis by simp
qed

text \<open>
  Every answer of this endpoint is one the client handles, so against this broker, and
  with a readable local cache, \<open>predict_with_cache\<close> raises nothing.
\<close>

lemma http_outcome_handled: "handled (http_outcome r)"
  by (cases r) (simp_all add: http_outcome_def handled_def is_number_def)

lemma predict_with_cache_against_endpoint:
  assumes "\<And>a. broker img t a = Timeout \<or> (\<exists>e. broker img t a = RequestException e)
                \<or> (\<exists>r. broker img t a = http_outcome r)"
    and "readable parse c (client_hash_image_bytes sha img)"
  shows "\<not> isl (fst (predict_with_cache sha parse broker img t max_retries c))"
proof -
  have "handled (broker img t a)" for a
    using assms(1) [of a] http_outcome_handled by (auto simp: handled_def)
  then have "\<forall>a\<in>set [1..<nat (max_retries + 1)]. handled (broker img t a)" by simp
  from attempts_handled_isl [OF this]
  have loop: "\<not> isl (fst (attempts (broker img t) (client_hash_image_bytes sha img)
                  [1..<nat (max_retries + 1)] c))" .
  show ?thesis
  proof (cases "c (client_hash_image_bytes sha img)")
    case None
    with loop show ?thesis by (simp add: predict_with_cache_def Let_def)
  next
    case (Some cached)
    with loop assms(2) show ?thesis
      by (auto simp: predict_with_cache_def Let_def readable_def split: sum.splits)
  qed
qed

subsection \<open>A timed-out job is still served\<close>

lemma done_step:
  assumes "j < length (jobs s)" and "result_event (jobs s ! j)"
  shows "j < length (jobs (snd (step sha infer ev s)))
         \<and> result_event (jobs (snd (step sha infer ev s)) ! j)"
proof (cases ev)
  case (Request img)
  with assms show ?thesis
    by (auto simp: step_def predict_submit_def Let_def nth_append split: option.splits)
next
  case Worker
  show ?thesis
  proof (cases "job_queue s")
    case Nil
    with Worker assms show ?thesis by (simp add: step_def worker_idle)
  next
    case (Cons j0 rest)
    with Worker assms show ?thesis
      by (cases "j = j0")
         (auto simp: step_def inference_worker_def Let_def split: option.splits sum.splits)
  qed
next
  case (WaitReturns k)
  with assms show ?thesis
    by (auto simp: step_def predict_resume_def Let_def split: option.splits)
qed

lemma done_run:
  "j < length (jobs s) \<Longrightarrow> result_event (jobs s ! j) \<Longrightarrow>
     j < length (jobs (run sha infer evs s)) \<and> result_event (jobs (run sha infer evs s) ! j)"
proof (induction evs arbitrary: s)
  case Nil
  then show ?case by simp
next
  case (Cons ev evs)
  from done_step [OF Cons.prems, of sha infer ev] Cons.IH show ?case by simp
qed

lemma served_within_done:
  "j < length (jobs s) \<Longrightarrow> result_event (jobs s ! j) \<Longrightarrow> served_within infer n j s"
  by (simp add: served_within_def)

lemma served_within_other:
  assumes "served_within infer n j s" and "ev \<noteq> Worker"
  shows "served_within infer n j (snd (step sha infer ev s))"
proof (cases "result_event (jobs s ! j)")
  case True
  from assms(1) have "j < length (jobs s)" by (simp add: served_within_def)
  from done_step [OF this True, of sha infer ev] show ?thesis
    by (simp add: served_within_done)
next
  case False
  with assms(1) have j: "j < length (jobs s)" and alive: "worker_alive s"
    and n: "n < length (job_queue s)" and q: "j \<in> set (take (Suc n) (job_queue s))"
    and ok: "\<And>k. k \<in> set (take (Suc n) (job_queue s)) \<Longrightarrow>
               k < length (jobs s) \<and> \<not> isl (infer (image_bytes (jobs s ! k)))"
    by (simp_all add: served_within_def)
  show ?thesis
  proof (cases ev)
    case (Request img)
    show ?thesis
    proof (cases "rdb s (hash_image_bytes sha img)")
      case (Some p)
      with Request assms(1) show ?thesis by (simp add: step_def predict_submit_def)
    next
      case None
      let ?jb = "\<lparr>image_hash = hash_image_bytes sha img, image_bytes = img,
                  result_event = False, result = None\<rparr>"
      let ?s' = "s\<lparr>jobs := jobs s @ [?jb], job_queue := job_queue s @ [length (jobs s)],
                    waiting := waiting s @ [length (jobs s)]\<rparr>"
      have eq: "snd (step sha infer ev s) = ?s'"
        using None Request by (simp add: step_def predict_submit_def Let_def)
      have tk: "take (Suc n) (job_queue ?s') = take (Suc n) (job_queue s)" using n by simp
      have old: "\<And>k. k < length (jobs s) \<Longrightarrow> jobs ?s' ! k = jobs s ! k"
        by (simp add: nth_append)
      have "served_within infer n j ?s'"
        unfolding served_within_def tk
        using j alive n q ok old by (auto intro: less_SucI)
      with eq show ?thesis by simp
    qed
  next
    case Worker
    with assms(2) show ?thesis by simp
  next
    case (WaitReturns k)
    have "snd (step sha infer ev s) = s
          \<or> snd (step sha infer ev s) = s\<lparr>waiting := removeAll k (waiting s)\<rparr>"
      using WaitReturns by (simp add: step_def predict_resume_def Let_def split: option.splits)
    with assms(1) show ?thesis by (auto simp: served_within_def)
  qed
qed

lemma served_within_worker:
  assumes "served_within infer n j s"
  shows "served_within infer (n - 1) j (inference_worker infer s)
         \<and> (n = 0 \<longrightarrow> result_event (jobs (inference_worker infer s) ! j))"
proof (cases "result_event (jobs s ! j)")
  case True
  from assms have j: "j < length (jobs s)" by (simp add: served_within_def)
  from done_step [OF j True, of sha infer Worker] show ?thesis
    by (simp add: served_within_done step_def)
next
  case False
  with assms have j: "j < length (jobs s)" and alive: "worker_alive s"
    and n: "n < length (job_queue s)" and q: "j \<in> set (take (Suc n) (job_queue s))"
    and ok: "\<And>k. k \<in> set (take (Suc n) (job_queue s)) \<Longrightarrow>
               k < length (jobs s) \<and> \<not> isl (infer (image_bytes (jobs s ! k)))"
    by (simp_all add: served_within_def)
  from n obtain j0 rest where Cons: "job_queue s = j0 # rest" by (cases "job_queue s") auto
  let ?s' = "inference_worker infer s"
  from ok [of j0] Cons have j0: "j0 < length (jobs s)"
    and ret: "\<not> isl (infer (image_bytes (jobs s ! j0)))" by simp_all
  from ret obtain v0 where v0: "infer (image_bytes (jobs s ! j0)) = Inr v0"
    by (cases "infer (image_bytes (jobs s ! j0))") auto
  then obtain v where serve: "rdb s (image_hash (jobs s ! j0)) = Some v
       \<or> (rdb s (image_hash (jobs s ! j0)) = None \<and> infer (image_bytes (jobs s ! j0)) = Inr v)"
    by (cases "rdb s (image_hash (jobs s ! j0))") auto
  note w = worker_serves [where infer = infer, OF alive Cons serve]
  have len: "length (jobs ?s') = length (jobs s)" by (simp add: w(1))
  have bytes: "image_bytes (jobs ?s' ! k) = image_bytes (jobs s ! k)"
    if "k < length (jobs s)" for k
    using that by (cases "k = j0") (simp_all add: w(1))
  show ?thesis
  proof (cases "j = j0")
    case True
    with j0 have "result_event (jobs ?s' ! j)" by (simp add: w(1))
    with j len show ?thesis by (simp add: served_within_done)
  next
    case neq: False
    with q Cons have jn: "j \<in> set (take n rest)" by simp
    then have n0: "n \<noteq> 0" by (cases n) auto
    then have tk: "take (Suc (n - 1)) rest = take n rest" by simp
    have sub: "\<And>k. k \<in> set (take n rest) \<Longrightarrow> k \<in> set (take (Suc n) (job_queue s))"
      using Cons by simp
    have "served_within infer (n - 1) j ?s'"
      unfolding served_within_def w(2) tk
      using j len jn n n0 Cons w(4) ok sub bytes by auto
    with n0 show ?thesis by simp
  qed
qed

lemma served_within_run:
  "served_within infer n j s \<Longrightarrow> n < count_list evs Worker \<Longrightarrow>
     j < length (jobs (run sha infer evs s)) \<and> result_event (jobs (run sha infer evs s) ! j)"
proof (induction evs arbitrary: s n)
  case Nil
  then show ?case by simp
next
  case (Cons ev evs)
  show ?case
  proof (cases "ev = Worker")
    case True
    note w = served_within_worker [OF Cons.prems(1)]
    show ?thesis
    proof (cases n)
      case 0
      with w have "j < length (jobs (inference_worker infer s))"
        and "result_event (jobs (inference_worker infer s) ! j)"
        by (simp_all add: served_within_def)
      from done_run [OF this, of sha infer evs] True show ?thesis by (simp add: step_def)
    next
      case (Suc m)
      with w have "served_within infer m j (inference_worker infer s)" by simp
      moreover from Suc True Cons.prems(2) have "m < count_list evs Worker" by simp
      ultimately show ?thesis using Cons.IH True by (simp add: step_def)
    qed
  next
    case False
    from served_within_other [OF Cons.prems(1) False, of sha]
    have "served_within infer n j (snd (step sha infer ev s))" .
    moreover from False Cons.prems(2) have "n < count_list evs Worker" by simp
    ultimately show ?thesis using Cons.IH by simp
  qed
qed

lemma job_fields_step:
  assumes "j < length (jobs s)"
  shows "image_hash (jobs (snd (step sha infer ev s)) ! j) = image_hash (jobs s ! j)
         \<and> image_bytes (jobs (snd (step sha infer ev s)) ! j) = image_bytes (jobs s ! j)
         \<and> j < length (jobs (snd (step sha infer ev s)))"
proof (cases ev)
  case (Request img)
  with assms show ?thesis
    by (auto simp: step_def predict_submit_def Let_def nth_append split: option.splits)
next
  case Worker
  show ?thesis
  proof (cases "job_queue s")
    case Nil
    with Worker assms show ?thesis by (simp add: step_def worker_idle)
  next
    case (Cons j0 rest)
    with Worker assms show ?thesis
      by (cases "j = j0")
         (auto simp: step_def inference_worker_def Let_def split: option.splits sum.splits)
  qed
next
  case (WaitReturns k)
  with assms show ?thesis
    by (auto simp: step_def predict_resume_def Let_def split: option.splits)
qed

lemma job_fields_run:
  "j < length (jobs s) \<Longrightarrow>
     image_hash (jobs (run sha infer evs s) ! j) = image_hash (jobs s ! j)
     \<and> image_bytes (jobs (run sha infer evs s) ! j) = image_bytes (jobs s ! j)"
proof (induction evs arbitrary: s)
  case Nil
  then show ?case by simp
next
  case (Cons ev evs)
  from job_fields_step [OF Cons.prems, of sha infer ev] Cons.IH show ?case by simp
qed

text \<open>Once the worker thread has ended, the cache store is never written again.\<close>

lemma stopped_step:
  assumes "\<not> worker_alive s"
  shows "\<not> worker_alive (snd (step sha infer ev s)) \<and> rdb (snd (step sha infer ev s)) = rdb s"
proof (cases ev)
  case (Request img)
  with assms show ?thesis
    by (auto simp: step_def predict_submit_def Let_def split: option.splits)
next
  case Worker
  with assms show ?thesis by (simp add: step_def worker_stopped)
next
  case (WaitReturns k)
  with assms show ?thesis
    by (auto simp: step_def predict_resume_def Let_def split: option.splits)
qed

lemma stopped_run:
  "\<not> worker_alive s \<Longrightarrow>
     \<not> worker_alive (run sha infer evs s) \<and> rdb (run sha infer evs s) = rdb s"
proof (induction evs arbitrary: s)
  case Nil
  then show ?case by simp
next
  case (Cons ev evs)
  from stopped_step [OF Cons.prems, of sha infer ev] Cons.IH show ?case by simp
qed

text \<open>
  Claim C3, as amended.  In every state the server reaches, when the wait of a handler
  returns with the job's event not set, the handler answers 504 with the error
  "Inference timeout", and nothing but the handler's own waiting changes: no job is
  cancelled, and while the worker runs the job is still in the queue.  If the worker
  runs, and the inference returns on the job and on the jobs queued ahead of it, then,
  whatever happens afterwards, once the worker has run more iterations than there were
  jobs ahead, the job has its result, the cache store holds that result under the job's
  fingerprint, and a submission of the same bytes is answered from the cache.
\<close>

theorem timeout_leaves_job_to_worker:
  assumes "j \<in> set (waiting (run sha infer evs (start store)))"
    and "\<not> result_event (jobs (run sha infer evs (start store)) ! j)"
  shows "step sha infer (WaitReturns j) (run sha infer evs (start store))
           = (Some (ErrorReply 504 ''Inference timeout''),
              (run sha infer evs (start store))
                \<lparr>waiting := removeAll j (waiting (run sha infer evs (start store)))\<rparr>)
       \<and> (worker_alive (run sha infer evs (start store)) \<longrightarrow>
            j \<in> set (job_queue (run sha infer evs (start store))))
       \<and> (worker_alive (run sha infer evs (start store))
            \<and> i < length (job_queue (run sha infer evs (start store)))
            \<and> job_queue (run sha infer evs (start store)) ! i = j
            \<and> (\<forall>k\<in>set (take (Suc i) (job_queue (run sha infer evs (start store)))).
                  \<not> isl (infer (image_bytes (jobs (run sha infer evs (start store)) ! k))))
            \<and> i < count_list later Worker \<longrightarrow>
            (\<exists>p. result (jobs (run sha infer later
                     (snd (step sha infer (WaitReturns j) (run sha infer evs (start store)))))
                   ! j) = Some p
               \<and> rdb (run sha infer later
                     (snd (step sha infer (WaitReturns j) (run sha infer evs (start store)))))
                   (image_hash (jobs (run sha infer evs (start store)) ! j)) = Some p
               \<and> fst (step sha infer
                     (Request (image_bytes (jobs (run sha infer evs (start store)) ! j)))
                     (run sha infer later
                       (snd (step sha infer (WaitReturns j) (run sha infer evs (start store))))))
                   = Some (Reply True p)))"
proof (intro conjI impI)
  let ?s = "run sha infer evs (start store)"
  let ?s' = "?s\<lparr>waiting := removeAll j (waiting ?s)\<rparr>"
  have c: "consistent sha ?s" by (simp add: consistent_run consistent_start)
  from c assms(1) have j: "j < length (jobs ?s)" by (rule consistent_waiting)
  show st: "step sha infer (WaitReturns j) ?s
           = (Some (ErrorReply 504 ''Inference timeout''), ?s')"
    using assms by (simp add: step_def predict_resume_def Let_def)
  {
    assume "worker_alive ?s"
    with consistent_unset [OF c j assms(2)] show "j \<in> set (job_queue ?s)" by simp
  }
  assume a: "worker_alive ?s \<and> i < length (job_queue ?s) \<and> job_queue ?s ! i = j
      \<and> (\<forall>k\<in>set (take (Suc i) (job_queue ?s)). \<not> isl (infer (image_bytes (jobs ?s ! k))))
      \<and> i < count_list later Worker"
  let ?t = "run sha infer later (snd (step sha infer (WaitReturns j) ?s))"
  have c': "consistent sha (snd (step sha infer (WaitReturns j) ?s))"
    using c by (rule consistent_step)
  then have ct: "consistent sha ?t" by (rule consistent_run)
  from a have "take (Suc i) (job_queue ?s) ! i = j" by simp
  moreover from a have "i < length (take (Suc i) (job_queue ?s))" by simp
  ultimately have q: "j \<in> set (take (Suc i) (job_queue ?s))" by (metis nth_mem)
  have inq: "\<And>k. k \<in> set (take (Suc i) (job_queue ?s)) \<Longrightarrow> k < length (jobs ?s)"
    using c by (auto dest: in_set_takeD consistent_queue)
  have "served_within infer i j ?s'"
    unfolding served_within_def using j a q inq by auto
  moreover from a have "i < count_list later Worker" by simp
  ultimately have d: "j < length (jobs ?t) \<and> result_event (jobs ?t ! j)"
    using served_within_run [of infer i j ?s' later sha] st by simp
  from d have dl: "j < length (jobs ?t)" and de: "result_event (jobs ?t ! j)" by simp_all
  from consistent_set [OF ct dl de] obtain p where
    p: "result (jobs ?t ! j) = Some p" "rdb ?t (image_hash (jobs ?t ! j)) = Some p" by auto
  have js': "j < length (jobs (snd (step sha infer (WaitReturns j) ?s)))" using st j by simp
  from job_fields_run [OF js', of sha infer later] st
  have same: "image_hash (jobs ?t ! j) = image_hash (jobs ?s ! j)"
    "image_bytes (jobs ?t ! j) = image_bytes (jobs ?s ! j)" by simp_all
  from consistent_hash [OF c j] p(2) same
  have "rdb ?t (hash_image_bytes sha (image_bytes (jobs ?s ! j))) = Some p" by simp
  then have "fst (step sha infer (Request (image_bytes (jobs ?s ! j))) ?t) = Some (Reply True p)"
    by (simp add: step_request_hit)
  with p same show "\<exists>p. result (jobs ?t ! j) = Some p
               \<and> rdb ?t (image_hash (jobs ?s ! j)) = Some p
               \<and> fst (step sha infer (Request (image_bytes (jobs ?s ! j))) ?t)
                   = Some (Reply True p)" by simp
qed

theorem timeout_leaves_job_to_worker_witness:
  "fst (step sample_digest sample_inference (WaitReturns 0)
          (run sample_digest sample_inference [Request [1, 2]] (start Map.empty)))
     = Some (ErrorReply 504 ''Inference timeout'')
   \<and> fst (step sample_digest sample_inference (Request [1, 2])
          (run sample_digest sample_inference [Worker]
             (snd (step sample_digest sample_inference (WaitReturns 0)
                (run sample_digest sample_inference [Request [1, 2]] (start Map.empty))))))
     = Some (Reply True (1 / 3))"
proof -
  let ?s = "run sample_digest sample_inference [Request [1, 2]] (start Map.empty)"
  let ?t = "run sample_digest sample_inference [Worker]
             (snd (step sample_digest sample_inference (WaitReturns 0) ?s))"
  have w: "0 \<in> set (waiting ?s)" by (simp add: server_eval)
  have e: "\<not> result_event (jobs ?s ! 0)" by (simp add: server_eval)
  have alive: "worker_alive ?s" by (simp add: server_eval)
  have pos: "0 < length (job_queue ?s)" "job_queue ?s ! 0 = 0" by (simp_all add: server_eval)
  have ok: "\<forall>k\<in>set (take (Suc 0) (job_queue ?s)).
              \<not> isl (sample_inference (image_bytes (jobs ?s ! k)))"
    by (simp add: server_eval)
  have n: "0 < count_list [Worker] Worker" by simp
  have b: "image_bytes (jobs ?s ! 0) = [1, 2]" by (simp add: server_eval)
  have r: "result (jobs ?t ! 0) = Some (1 / 3)" by (simp add: server_eval)
  from timeout_leaves_job_to_worker [OF w e, of 0 "[Worker]"] alive pos ok n b r
  show ?thesis by auto
qed

text \<open>
  The claim as first stated, for every submission whose wait elapses, fails: an upload
  that is no image makes the inference raise in the worker thread, which ends.  The
  submission is answered 504, nothing is ever written to the cache store for its
  fingerprint, and a later submission of the same bytes is not answered from the cache:
  its handler queues a job and waits.
\<close>

theorem timeout_without_cache_write_counterexample:
  "fst (step sample_digest sample_inference (WaitReturns 0)
          (run sample_digest sample_inference [Request []] (start Map.empty)))
     = Some (ErrorReply 504 ''Inference timeout'')
   \<and> rdb (run sample_digest sample_inference [Request [], WaitReturns 0, Worker, Worker]
          (start Map.empty)) (hash_image_bytes sample_digest []) = None
   \<and> fst (step sample_digest sample_inference (Request [])
          (run sample_digest sample_inference [Request [], WaitReturns 0, Worker, Worker]
             (start Map.empty))) = None"
  by (simp add: server_eval)
end
